theory Spec2Isabelle
  imports Complex_Main "HOL-Library.Char_ord" "HOL-Library.List_Lexorder" "HOL-Library.Sublist"
begin

section \<open>Characters and the string methods of Python that app.py calls\<close>

text \<open>
  A Python \<open>str\<close> is a sequence of code points. The model is \<open>string\<close>, a list of
  \<open>char\<close>; a \<open>char\<close> stands for the code point with its number, so the texts covered are
  those whose code points lie below U+0100 (ASCII and Latin-1). For these 256 code points
  the classifications below are the ones CPython uses in \<open>str.isspace\<close>, \<open>str.splitlines\<close>,
  \<open>str.isalnum\<close> and \<open>str.lower\<close>, which the \<open>re\<close> module shares for \<open>\s\<close>, \<open>\w\<close>, \<open>\b\<close>
  and case-insensitive matching.
\<close>

definition code :: "char \<Rightarrow> nat" where
  "code c = of_char c"

definition in_range :: "nat \<Rightarrow> nat \<Rightarrow> char \<Rightarrow> bool" where
  "in_range lo hi c = (lo \<le> code c \<and> code c \<le> hi)"

text \<open>\<open>str.isspace\<close> on one code point; also the class \<open>\s\<close>.\<close>

definition isspace :: "char \<Rightarrow> bool" where
  "isspace c = (in_range 9 13 c \<or> in_range 28 32 c \<or> code c = 133 \<or> code c = 160)"

text \<open>The line boundaries of \<open>str.splitlines\<close>: LF, VT, FF, CR, FS, GS, RS and NEL.\<close>

definition islinebreak :: "char \<Rightarrow> bool" where
  "islinebreak c = (in_range 10 13 c \<or> in_range 28 30 c \<or> code c = 133)"

definition ascii_upper :: "char \<Rightarrow> bool" where
  "ascii_upper c = in_range 65 90 c"

definition ascii_lower :: "char \<Rightarrow> bool" where
  "ascii_lower c = in_range 97 122 c"

definition ascii_digit :: "char \<Rightarrow> bool" where
  "ascii_digit c = in_range 48 57 c"

text \<open>The class \<open>[a-zA-Z]\<close>.\<close>

definition ascii_letter :: "char \<Rightarrow> bool" where
  "ascii_letter c = (ascii_lower c \<or> ascii_upper c)"

text \<open>\<open>str.isalnum\<close> on one code point below U+0100.\<close>

definition isalnum :: "char \<Rightarrow> bool" where
  "isalnum c = (ascii_digit c \<or> ascii_letter c \<or> code c = 170 \<or> code c = 178 \<or> code c = 179
     \<or> code c = 181 \<or> in_range 185 186 c \<or> in_range 188 190 c \<or> in_range 192 214 c
     \<or> in_range 216 246 c \<or> in_range 248 255 c)"

text \<open>The class \<open>\w\<close> of a \<open>str\<close> pattern: alphanumeric or the underscore.\<close>

definition isword :: "char \<Rightarrow> bool" where
  "isword c = (isalnum c \<or> c = CHR ''_'')"

text \<open>\<open>str.lower\<close> and \<open>str.upper\<close> on one code point, where the result is again below U+0100
  (the capitals of U+00B5, U+00DF and U+00FF are not, so those three stay as they are).\<close>

definition lower_char :: "char \<Rightarrow> char" where
  "lower_char c = (if ascii_upper c \<or> in_range 192 214 c \<or> in_range 216 222 c
     then char_of (code c + 32) else c)"

definition upper_char :: "char \<Rightarrow> char" where
  "upper_char c = (if ascii_lower c \<or> in_range 224 246 c \<or> in_range 248 254 c
     then char_of (code c - 32) else c)"

definition lower :: "string \<Rightarrow> string" where
  "lower s = map lower_char s"

text \<open>\<open>str.strip()\<close>: leading and trailing whitespace removed.\<close>

definition lstrip :: "string \<Rightarrow> string" where
  "lstrip s = dropWhile isspace s"

definition rstrip :: "string \<Rightarrow> string" where
  "rstrip s = rev (dropWhile isspace (rev s))"

definition strip :: "string \<Rightarrow> string" where
  "strip s = rstrip (lstrip s)"

text \<open>\<open>str.splitlines()\<close>: a line ends at a line boundary, CR LF counts as one boundary, and
  no empty line follows a boundary that ends the text.\<close>

definition after_break :: "string \<Rightarrow> string" where
  "after_break s = (case s of
       [] \<Rightarrow> []
     | c # r \<Rightarrow> (case r of
           [] \<Rightarrow> r
         | d # r' \<Rightarrow> if c = CHR 0x0D \<and> d = CHR 0x0A then r' else r))"

function splitlines :: "string \<Rightarrow> string list" where
  "splitlines s =
     (if s = [] then []
      else takeWhile (\<lambda>c. \<not> islinebreak c) s
           # splitlines (after_break (dropWhile (\<lambda>c. \<not> islinebreak c) s)))"
  by pat_completeness auto

lemma length_after_break: "length (after_break s) \<le> length s - 1"
  by (simp add: after_break_def split: list.splits)

lemma length_after_break_dropWhile:
  "s \<noteq> [] \<Longrightarrow> length (after_break (dropWhile P s)) < length s"
proof -
  assume ne: "s \<noteq> []"
  have "length (after_break (dropWhile P s)) \<le> length (dropWhile P s) - 1"
    by (rule length_after_break)
  also have "\<dots> \<le> length s - 1"
    using length_dropWhile_le [of P s] by simp
  also have "\<dots> < length s"
    using ne by (cases s) simp_all
  finally show ?thesis .
qed

termination splitlines
  by (relation "measure length") (simp_all add: length_after_break_dropWhile)

declare splitlines.simps [simp del]

text \<open>\<open>str.split()\<close> without arguments: the maximal runs of non-whitespace characters.\<close>

function split :: "string \<Rightarrow> string list" where
  "split s =
     (case dropWhile isspace s of
        [] \<Rightarrow> []
      | c # r \<Rightarrow> (c # takeWhile (\<lambda>x. \<not> isspace x) r)
                 # split (dropWhile (\<lambda>x. \<not> isspace x) r))"
  by pat_completeness auto

lemma length_split_rest:
  assumes "dropWhile isspace s = c # r"
  shows "length (dropWhile (\<lambda>x. \<not> isspace x) r) < length s"
proof -
  have "length (dropWhile (\<lambda>x. \<not> isspace x) r) \<le> length r"
    by (rule length_dropWhile_le)
  also have "\<dots> < length (dropWhile isspace s)"
    using assms by simp
  also have "\<dots> \<le> length s"
    by (rule length_dropWhile_le)
  finally show ?thesis .
qed

termination split
  by (relation "measure length") (simp_all add: length_split_rest)

declare split.simps [simp del]

text \<open>\<open>sep.join(lines)\<close> with the separator \<open>"\n"\<close>.\<close>

fun join_nl :: "string list \<Rightarrow> string" where
  "join_nl [] = []"
| "join_nl [l] = l"
| "join_nl (l # m # ls) = l @ CHR 0x0A # join_nl (m # ls)"

text \<open>\<open>sub in s\<close>: \<open>sub\<close> occurs in \<open>s\<close> as a contiguous piece.\<close>

fun contains :: "string \<Rightarrow> string \<Rightarrow> bool" where
  "contains [] sub = (sub = [])"
| "contains (c # cs) sub = (prefix sub (c # cs) \<or> contains cs sub)"

section \<open>The part of the \<open>re\<close> module that app.py uses\<close>

text \<open>
  A compiled pattern is a \<open>regex\<close>. \<open>Cls P\<close> matches one character of the class \<open>P\<close>,
  \<open>Bnd\<close> is \<open>\b\<close>, \<open>Grp\<close> is the capturing group (every pattern of app.py has at most one),
  \<open>Star\<close> is the greedy \<open>*\<close>. Matching is backtracking: \<open>rmatch r q\<close> lists, in the order in
  which the matcher of \<open>re\<close> tries them, every way in which \<open>r\<close> matches at the position \<open>q\<close>,
  each with the text of the group (if it took part) and the position where the match ends.
  A position is the character before it (none at the start of the text) and the text
  from it onwards.
\<close>

datatype regex =
    Cls "char \<Rightarrow> bool"
  | Bnd
  | Empty
  | Seq regex regex
  | Alt regex regex
  | Star regex
  | Grp regex

type_synonym pos = "char option \<times> string"

type_synonym result = "string option \<times> pos"

definition word_before :: "char option \<Rightarrow> bool" where
  "word_before p = (case p of None \<Rightarrow> False | Some c \<Rightarrow> isword c)"

definition word_after :: "string \<Rightarrow> bool" where
  "word_after s = (case s of [] \<Rightarrow> False | c # _ \<Rightarrow> isword c)"

text \<open>\<open>\b\<close>: exactly one side of the position is a word character.\<close>

definition at_boundary :: "pos \<Rightarrow> bool" where
  "at_boundary q = (word_before (fst q) \<noteq> word_after (snd q))"

text \<open>The group of a sequence is the one set last.\<close>

definition later_group :: "string option \<Rightarrow> result \<Rightarrow> result" where
  "later_group g x = (case fst x of None \<Rightarrow> (g, snd x) | Some _ \<Rightarrow> x)"

text \<open>The text between the position \<open>q\<close> and a later position with \<open>n\<close> characters left.\<close>

definition consumed :: "pos \<Rightarrow> pos \<Rightarrow> string" where
  "consumed q q' = take (length (snd q) - length (snd q')) (snd q)"

definition shorter :: "pos \<Rightarrow> result \<Rightarrow> bool" where
  "shorter q x = (length (snd (snd x)) < length (snd q))"

text \<open>Each result of the list, continued by the matcher \<open>f\<close> from where it ended.\<close>

fun then_match :: "(pos \<Rightarrow> result list) \<Rightarrow> result list \<Rightarrow> result list" where
  "then_match f [] = []"
| "then_match f (x # xs) = map (later_group (fst x)) (f (snd x)) @ then_match f xs"

lemma then_match_cong [fundef_cong]:
  "xs = ys \<Longrightarrow> (\<And>x. x \<in> set ys \<Longrightarrow> f (snd x) = g (snd x)) \<Longrightarrow> then_match f xs = then_match g ys"
  by (induction ys arbitrary: xs) auto

function rmatch :: "regex \<Rightarrow> pos \<Rightarrow> result list" where
  "rmatch (Cls P) q =
     (case snd q of
        [] \<Rightarrow> []
      | c # cs \<Rightarrow> if P c then [(None, (Some c, cs))] else [])"
| "rmatch Bnd q = (if at_boundary q then [(None, q)] else [])"
| "rmatch Empty q = [(None, q)]"
| "rmatch (Seq a b) q = then_match (rmatch b) (rmatch a q)"
| "rmatch (Alt a b) q = rmatch a q @ rmatch b q"
| "rmatch (Star a) q =
     then_match (rmatch (Star a)) (filter (shorter q) (rmatch a q)) @ [(None, q)]"
| "rmatch (Grp a) q = map (\<lambda>x. (Some (consumed q (snd x)), snd x)) (rmatch a q)"
  by pat_completeness auto

termination rmatch
  by (relation "measures [\<lambda>(r, q). size r, \<lambda>(r, q). length (snd q)]")
     (auto simp: shorter_def)

lemma set_then_match:
  "x \<in> set (then_match f xs) \<longleftrightarrow>
     (\<exists>y \<in> set xs. \<exists>z \<in> set (f (snd y)). x = later_group (fst y) z)"
  by (induction xs) auto

declare rmatch.simps(6) [simp del]

text \<open>\<open>+\<close>, \<open>?\<close> and \<open>{4,}\<close>, all greedy.\<close>

definition Plus :: "regex \<Rightarrow> regex" where
  "Plus a = Seq a (Star a)"

definition Opt :: "regex \<Rightarrow> regex" where
  "Opt a = Alt a Empty"

definition AtLeast4 :: "regex \<Rightarrow> regex" where
  "AtLeast4 a = Seq a (Seq a (Seq a (Seq a (Star a))))"

text \<open>Under \<open>re.IGNORECASE\<close> a literal character matches the characters with the same
  lower case, and a class matches a character when it holds one of its two cases.\<close>

definition ci_chr :: "char \<Rightarrow> regex" where
  "ci_chr c = Cls (\<lambda>x. lower_char x = lower_char c)"

definition ci_cls :: "(char \<Rightarrow> bool) \<Rightarrow> regex" where
  "ci_cls P = Cls (\<lambda>x. P (lower_char x) \<or> P (upper_char x))"

text \<open>A literal text under \<open>re.IGNORECASE\<close>; also what \<open>re.escape\<close> of the text compiles to.\<close>

fun ci_lit :: "string \<Rightarrow> regex" where
  "ci_lit [] = Empty"
| "ci_lit (c # cs) = Seq (ci_chr c) (ci_lit cs)"

text \<open>The first match at a position. With \<open>must_advance\<close> an empty match does not count
  (\<open>re\<close> sets it for the search that follows an empty match).\<close>

definition match_at :: "bool \<Rightarrow> regex \<Rightarrow> pos \<Rightarrow> result option" where
  "match_at must_advance r q =
     (case filter (\<lambda>x. \<not> must_advance \<or> snd (snd x) \<noteq> snd q) (rmatch r q) of
        [] \<Rightarrow> None
      | x # _ \<Rightarrow> Some x)"

text \<open>\<open>re.search\<close>: the first match at the leftmost position that has one; the result is
  the match object, here the text of group 1 (\<open>None\<close> if the group took no part).\<close>

fun search_from :: "regex \<Rightarrow> char option \<Rightarrow> string \<Rightarrow> string option option" where
  "search_from r p [] = map_option fst (match_at False r (p, []))"
| "search_from r p (c # cs) =
     (case match_at False r (p, c # cs) of
        Some x \<Rightarrow> Some (fst x)
      | None \<Rightarrow> search_from r (Some c) cs)"

definition re_search :: "regex \<Rightarrow> string \<Rightarrow> string option option" where
  "re_search r s = search_from r None s"

text \<open>Every match ends inside the text it started in, and the character before its end
  is the last one it consumed.\<close>

definition reaches :: "pos \<Rightarrow> pos \<Rightarrow> bool" where
  "reaches q q' = (\<exists>u. snd q = u @ snd q' \<and> fst q' = (if u = [] then fst q else Some (last u)))"

lemma reaches_refl: "reaches q q"
  by (simp add: reaches_def)

lemma reaches_trans:
  assumes "reaches q q'" and "reaches q' q''"
  shows "reaches q q''"
proof -
  from assms(1) obtain u where u: "snd q = u @ snd q'"
    "fst q' = (if u = [] then fst q else Some (last u))"
    by (auto simp: reaches_def)
  from assms(2) obtain v where v: "snd q' = v @ snd q''"
    "fst q'' = (if v = [] then fst q' else Some (last v))"
    by (auto simp: reaches_def)
  have "snd q = (u @ v) @ snd q''"
    using u v by simp
  moreover have "fst q'' = (if u @ v = [] then fst q else Some (last (u @ v)))"
    using u v by simp
  ultimately show ?thesis
    unfolding reaches_def by blast
qed

lemma reaches_length: "reaches q q' \<Longrightarrow> length (snd q') \<le> length (snd q)"
  by (auto simp: reaches_def)

lemma reaches_same: "reaches q q' \<Longrightarrow> length (snd q') = length (snd q) \<Longrightarrow> q' = q"
  by (cases q; cases q') (auto simp: reaches_def)

lemma snd_later_group [simp]: "snd (later_group g x) = snd x"
  by (simp add: later_group_def split: option.splits)

lemma rmatch_reaches: "x \<in> set (rmatch r q) \<Longrightarrow> reaches q (snd x)"
proof (induction r q arbitrary: x rule: rmatch.induct)
  case (1 P q)
  obtain p s where q: "q = (p, s)" by (cases q)
  from "1.prems" q obtain c cs where "s = c # cs" "x = (None, (Some c, cs))"
    by (auto split: list.splits if_splits)
  then have "snd q = [c] @ snd (snd x) \<and> fst (snd x) = (if [c] = [] then fst q else Some (last [c]))"
    using q by simp
  then show ?case
    unfolding reaches_def by blast
next
  case (2 q)
  then show ?case by (simp add: reaches_refl split: if_splits)
next
  case (3 q)
  then show ?case by (simp add: reaches_refl)
next
  case (4 a b q)
  from "4.prems" obtain y z where y: "y \<in> set (rmatch a q)"
    and z: "z \<in> set (rmatch b (snd y))" and x: "x = later_group (fst y) z"
    by (auto simp: set_then_match)
  have "reaches q (snd z)"
    using "4.IH"(1) [OF y] "4.IH"(2) [OF y z] by (rule reaches_trans)
  then show ?case using x by simp
next
  case (5 a b q)
  from "5.prems" have "x \<in> set (rmatch a q) \<or> x \<in> set (rmatch b q)" by simp
  then show ?case using "5.IH" by blast
next
  case (6 a q)
  from "6.prems" consider "x = (None, q)"
    | y z where "y \<in> set (filter (shorter q) (rmatch a q))"
        "z \<in> set (rmatch (Star a) (snd y))" "x = later_group (fst y) z"
    by (auto simp: rmatch.simps(6) [of a q] set_then_match)
  then show ?case
  proof cases
    case 1
    then show ?thesis by (simp add: reaches_refl)
  next
    case 2
    from 2(1) have "y \<in> set (rmatch a q)" by simp
    then have "reaches q (snd y)" by (rule "6.IH"(1))
    moreover have "reaches (snd y) (snd z)" using 2(1,2) by (rule "6.IH"(2))
    ultimately have "reaches q (snd z)" by (rule reaches_trans)
    then show ?thesis using 2(3) by simp
  qed
next
  case (7 a q)
  from "7.prems" obtain y where "y \<in> set (rmatch a q)" "snd x = snd y" by auto
  then show ?case using "7.IH" by simp
qed

lemma match_at_mem:
  assumes "match_at adv r q = Some x"
  shows "x \<in> set (rmatch r q)" and "adv \<Longrightarrow> snd (snd x) \<noteq> snd q"
proof -
  let ?ok = "\<lambda>x. \<not> adv \<or> snd (snd x) \<noteq> snd q"
  from assms obtain rest where "filter ?ok (rmatch r q) = x # rest"
    by (auto simp: match_at_def split: list.splits)
  then have "x \<in> set (filter ?ok (rmatch r q))"
    by simp
  then show "x \<in> set (rmatch r q)" and "adv \<Longrightarrow> snd (snd x) \<noteq> snd q"
    by auto
qed

lemma match_at_length:
  assumes "match_at adv r q = Some x"
  shows "length (snd (snd x)) \<le> length (snd q)"
    and "snd (snd x) \<noteq> snd q \<Longrightarrow> length (snd (snd x)) < length (snd q)"
proof -
  have r: "reaches q (snd x)"
    using match_at_mem(1) [OF assms] by (rule rmatch_reaches)
  then show "length (snd (snd x)) \<le> length (snd q)"
    by (rule reaches_length)
  show "length (snd (snd x)) < length (snd q)" if "snd (snd x) \<noteq> snd q"
    using r that by (auto simp: reaches_def)
qed

text \<open>\<open>re.findall\<close> for a pattern without a group: the texts of the successive matches,
  each search starting where the last match ended.\<close>

function findall_from :: "regex \<Rightarrow> bool \<Rightarrow> pos \<Rightarrow> string list" where
  "findall_from r must_advance q =
     (case match_at must_advance r q of
        Some x \<Rightarrow> consumed q (snd x) # findall_from r (snd (snd x) = snd q) (snd x)
      | None \<Rightarrow> (case snd q of
           [] \<Rightarrow> []
         | c # cs \<Rightarrow> findall_from r False (Some c, cs)))"
  by pat_completeness auto

termination findall_from
proof (relation "measure (\<lambda>(r, adv, q). 2 * length (snd q) + (if adv then 0 else 1))",
    goal_cases)
  case 1
  show ?case by simp
next
  case 2
  then show ?case by simp
next
  case (3 r adv q x)
  show ?case
  proof (cases "snd (snd x) = snd q")
    case True
    with match_at_mem(2) [OF 3] have "\<not> adv" by auto
    with True show ?thesis by simp
  next
    case False
    with match_at_length(2) [OF 3] show ?thesis by simp
  qed
qed

declare findall_from.simps [simp del]

definition re_findall :: "regex \<Rightarrow> string \<Rightarrow> string list" where
  "re_findall r s = findall_from r False (None, s)"

text \<open>\<open>pattern.sub(repl, text)\<close>: every match, found as by \<open>re.findall\<close>, is replaced by the
  template expanded with its group; the text between the matches is kept.\<close>

function sub_from :: "regex \<Rightarrow> (string option \<Rightarrow> string) \<Rightarrow> bool \<Rightarrow> pos \<Rightarrow> string" where
  "sub_from r repl must_advance q =
     (case match_at must_advance r q of
        Some x \<Rightarrow> repl (fst x) @ sub_from r repl (snd (snd x) = snd q) (snd x)
      | None \<Rightarrow> (case snd q of
           [] \<Rightarrow> []
         | c # cs \<Rightarrow> c # sub_from r repl False (Some c, cs)))"
  by pat_completeness auto

termination sub_from
proof (relation "measure (\<lambda>(r, f, adv, q). 2 * length (snd q) + (if adv then 0 else 1))",
    goal_cases)
  case 1
  show ?case by simp
next
  case 2
  then show ?case by simp
next
  case (3 r f adv q x)
  show ?case
  proof (cases "snd (snd x) = snd q")
    case True
    with match_at_mem(2) [OF 3] have "\<not> adv" by auto
    with True show ?thesis by simp
  next
    case False
    with match_at_length(2) [OF 3] show ?thesis by simp
  qed
qed

declare sub_from.simps [simp del]

definition re_sub :: "regex \<Rightarrow> (string option \<Rightarrow> string) \<Rightarrow> string \<Rightarrow> string" where
  "re_sub r repl s = sub_from r repl False (None, s)"

text \<open>The greedy star of a character class, one character at a time.\<close>

lemma rmatch_Star_Cls_Nil: "rmatch (Star (Cls P)) (p, []) = [(None, (p, []))]"
  by (simp add: rmatch.simps(6) [of "Cls P" "(p, [])"])

lemma later_group_None: "fst x = None \<Longrightarrow> later_group None x = x"
  by (cases x) (simp add: later_group_def)

lemma rmatch_Star_Cls_step:
  "rmatch (Star (Cls P)) (p, c # cs) =
     (if P c then map (later_group None) (rmatch (Star (Cls P)) (Some c, cs)) else [])
     @ [(None, (p, c # cs))]"
  by (simp add: rmatch.simps(6) [of "Cls P" "(p, c # cs)"] shorter_def)

lemma rmatch_Star_Cls_group: "x \<in> set (rmatch (Star (Cls P)) (p, s)) \<Longrightarrow> fst x = None"
proof (induction s arbitrary: p x)
  case Nil
  then show ?case by (simp add: rmatch_Star_Cls_Nil)
next
  case (Cons c cs)
  from Cons.prems consider "x = (None, (p, c # cs))"
    | z where "z \<in> set (rmatch (Star (Cls P)) (Some c, cs))" "x = later_group None z"
    by (auto simp: rmatch_Star_Cls_step split: if_splits)
  then show ?case
  proof cases
    case 1
    then show ?thesis by simp
  next
    case 2
    from Cons.IH [OF 2(1)] 2(2) show ?thesis
      by (simp add: later_group_None)
  qed
qed

lemma rmatch_Star_Cls_Cons:
  "rmatch (Star (Cls P)) (p, c # cs) =
     (if P c then rmatch (Star (Cls P)) (Some c, cs) else []) @ [(None, (p, c # cs))]"
proof -
  have "map (later_group None) (rmatch (Star (Cls P)) (Some c, cs))
      = rmatch (Star (Cls P)) (Some c, cs)"
    by (rule map_idI) (simp add: later_group_None rmatch_Star_Cls_group)
  then show ?thesis
    by (simp add: rmatch_Star_Cls_step)
qed

section \<open>The helper functions of app.py\<close>

datatype py_error = IndexError | AttributeError | ValueError

subsection \<open>\<open>extract_keywords\<close>\<close>

text \<open>The pattern \<open>\b[a-zA-Z]{4,}\b\<close>.\<close>

definition keyword_re :: regex where
  "keyword_re = Seq Bnd (Seq (AtLeast4 (Cls ascii_letter)) Bnd)"

text \<open>\<open>sorted(set(words))\<close>: the elements of the set, in ascending order. Strings compare
  as Python compares them, by code points and a proper prefix first.\<close>

definition extract_keywords :: "string \<Rightarrow> string list" where
  "extract_keywords text = sorted_list_of_set (set (re_findall keyword_re (lower text)))"

subsection \<open>\<open>extract_job_title_and_company\<close>\<close>

text \<open>The pattern \<open>(?i)(?:title|position|role)[:\-]?\s*(.+)\<close>; the dot matches every
  character but the line feed.\<close>

definition title_re :: regex where
  "title_re =
     Seq (Alt (ci_lit ''title'') (Alt (ci_lit ''position'') (ci_lit ''role'')))
      (Seq (Opt (ci_cls (\<lambda>c. c = CHR '':'' \<or> c = CHR ''-'')))
        (Seq (Star (Cls isspace))
          (Grp (Plus (Cls (\<lambda>c. c \<noteq> CHR 0x0A))))))"

text \<open>The pattern \<open>(?i)at ([A-Z][a-zA-Z0-9& ]+)\<close>.\<close>

definition company_re :: regex where
  "company_re =
     Seq (ci_lit ''at '')
      (Grp (Seq (ci_cls ascii_upper)
        (Plus (ci_cls (\<lambda>c. ascii_letter c \<or> ascii_digit c \<or> c = CHR ''&'' \<or> c = CHR '' '')))))"

text \<open>\<open>m.group(1).strip() if m else ""\<close>; \<open>strip\<close> of a group that took no part in the
  match would raise \<open>AttributeError\<close>.\<close>

definition group1_strip :: "string option option \<Rightarrow> py_error + string" where
  "group1_strip m =
     (case m of
        None \<Rightarrow> Inr []
      | Some None \<Rightarrow> Inl AttributeError
      | Some (Some g) \<Rightarrow> Inr (strip g))"

definition your_career :: "string \<Rightarrow> bool" where
  "your_career s = (contains (lower s) ''your'' \<and> contains (lower s) ''career'')"

text \<open>The loop over the lines, which leaves at the first line with both words.\<close>

fun career_loop :: "string list \<Rightarrow> string \<Rightarrow> string" where
  "career_loop [] job_title = job_title"
| "career_loop (line # lines) job_title =
     (if your_career line then strip line else career_loop lines job_title)"

definition extract_job_title_and_company :: "string \<Rightarrow> py_error + (string \<times> string)" where
  "extract_job_title_and_company job_desc =
     (case group1_strip (re_search title_re job_desc) of
        Inl e \<Rightarrow> Inl e
      | Inr job_title \<Rightarrow>
          (let job_title' =
             (if your_career job_desc then career_loop (splitlines job_desc) job_title
              else job_title)
           in case group1_strip (re_search company_re job_desc) of
                Inl e \<Rightarrow> Inl e
              | Inr company \<Rightarrow>
                  Inr (job_title',
                       if company = [] \<and> contains (lower job_desc) ''moneris''
                       then ''Moneris'' else company)))"

subsection \<open>\<open>extract_name_from_resume\<close>\<close>

definition extract_name_from_resume :: "string \<Rightarrow> py_error + string" where
  "extract_name_from_resume resume_text =
     (case splitlines (strip resume_text) of
        [] \<Rightarrow> Inl IndexError
      | first_line # _ \<Rightarrow>
          if length (split first_line) \<le> 5 then Inr (strip first_line) else Inr [])"

subsection \<open>\<open>clean_job_description\<close>\<close>

definition cutoff_keywords :: "string list" where
  "cutoff_keywords = [''why join us'', ''who we are'', ''what we offer'',
     ''equal opportunity'', ''requirements for success'']"

definition is_cutoff :: "string \<Rightarrow> bool" where
  "is_cutoff line = list_ex (\<lambda>kw. contains (lower line) kw) cutoff_keywords"

text \<open>The loop: \<open>filtered\<close> collects the lines until the first one with a marker.\<close>

fun clean_loop :: "string list \<Rightarrow> string list \<Rightarrow> string list" where
  "clean_loop [] filtered = filtered"
| "clean_loop (line # lines) filtered =
     (if is_cutoff line then filtered else clean_loop lines (filtered @ [line]))"

definition clean_job_description :: "string \<Rightarrow> string" where
  "clean_job_description text = strip (join_nl (clean_loop (splitlines text) []))"

subsection \<open>\<open>highlight_keywords\<close>\<close>

text \<open>The pattern \<open>\b(kw)\b\<close> with \<open>kw\<close> escaped, compiled with \<open>re.IGNORECASE\<close>, and the
  template \<open>**\1**\<close>; a group that took no part expands to the empty text.\<close>

definition highlight_re :: "string \<Rightarrow> regex" where
  "highlight_re kw = Seq Bnd (Seq (Grp (ci_lit kw)) Bnd)"

definition emphasis :: "string option \<Rightarrow> string" where
  "emphasis g = ''**'' @ (case g of None \<Rightarrow> [] | Some t \<Rightarrow> t) @ ''**''"

text \<open>\<open>sorted(ks, key=len, reverse=True)\<close>: a stable sort; with \<open>reverse\<close> Python reverses the
  list, sorts it and reverses the result, so that keywords of one length keep their order.\<close>

definition sorted_by_len_desc :: "string list \<Rightarrow> string list" where
  "sorted_by_len_desc ks = rev (sort_key length (rev ks))"

text \<open>\<open>set(keywords)\<close> keeps every keyword once. The order in which the interpreter iterates
  over a set is not the program's choice; the model takes the keywords in the order of their
  first occurrence in the list, so that a set iterated in a given order is the list without
  repetition in that order.\<close>

definition highlight_keywords :: "string \<Rightarrow> string list \<Rightarrow> string" where
  "highlight_keywords text keywords =
     foldl (\<lambda>t kw. re_sub (highlight_re kw) emphasis t) text
       (sorted_by_len_desc (remdups keywords))"

section \<open>Evaluation of the model on concrete texts\<close>

text \<open>The equations by which the simplifier runs the definitions on a given text.\<close>

lemmas char_simps = code_def in_range_def isspace_def islinebreak_def ascii_upper_def ascii_lower_def
  ascii_digit_def ascii_letter_def isalnum_def isword_def lower_char_def upper_char_def
  char_of_def less_char_def less_eq_char_def bit_Suc_0_iff

lemmas re_simps = rmatch.simps(6) Plus_def Opt_def AtLeast4_def ci_chr_def ci_cls_def shorter_def
  match_at_def re_search_def re_findall_def re_sub_def sub_from.simps findall_from.simps
  word_before_def word_after_def at_boundary_def later_group_def consumed_def

lemmas str_simps = lower_def strip_def lstrip_def rstrip_def splitlines.simps split.simps
  after_break_def

section \<open>Properties of \<open>extract_name_from_resume\<close>\<close>

lemma strip_Nil_iff: "strip t = [] \<longleftrightarrow> (\<forall>c \<in> set t. isspace c)"
proof
  assume "strip t = []"
  then have all: "\<forall>c \<in> set (dropWhile isspace t). isspace c"
    by (simp add: strip_def rstrip_def lstrip_def dropWhile_eq_Nil_conv)
  have "dropWhile isspace t = []"
  proof (rule ccontr)
    assume ne: "dropWhile isspace t \<noteq> []"
    then have "\<not> isspace (hd (dropWhile isspace t))"
      by (rule hd_dropWhile)
    moreover have "hd (dropWhile isspace t) \<in> set (dropWhile isspace t)"
      using ne by simp
    ultimately show False using all by blast
  qed
  then show "\<forall>c \<in> set t. isspace c"
    by (simp add: dropWhile_eq_Nil_conv)
next
  assume "\<forall>c \<in> set t. isspace c"
  then show "strip t = []"
    by (auto simp: strip_def rstrip_def lstrip_def dest: set_dropWhileD)
qed

lemma splitlines_Nil [simp]: "splitlines [] = []"
  by (simp add: splitlines.simps)

lemma splitlines_nonempty:
  "s \<noteq> [] \<Longrightarrow> splitlines s = takeWhile (\<lambda>c. \<not> islinebreak c) s
     # splitlines (after_break (dropWhile (\<lambda>c. \<not> islinebreak c) s))"
  by (subst splitlines.simps) simp

text \<open>
  Claim C4, as the code has it. For every resume text with at least one character that is
  not whitespace, \<open>extract_name_from_resume\<close> returns the first line of the trimmed text,
  trimmed again, if that line has five or fewer whitespace-separated words, and the empty
  string otherwise. (A text of whitespace only is not empty, and there the function raises:
  see the counterexample.)
\<close>

theorem extract_name_first_line:
  assumes "\<exists>c \<in> set resume_text. \<not> isspace c"
  shows "extract_name_from_resume resume_text =
     Inr (let first_line = takeWhile (\<lambda>c. \<not> islinebreak c) (strip resume_text)
          in if length (split first_line) \<le> 5 then strip first_line else [])"
proof -
  from assms have "strip resume_text \<noteq> []"
    by (simp add: strip_Nil_iff)
  then show ?thesis
    by (simp add: extract_name_from_resume_def splitlines_nonempty Let_def)
qed

theorem extract_name_first_line_witness:
  "(\<exists>c \<in> set (''John Smith'' @ [CHR 0x0A] @ ''Rest...''). \<not> isspace c)
   \<and> extract_name_from_resume (''John Smith'' @ [CHR 0x0A] @ ''Rest...'') = Inr ''John Smith''
   \<and> (\<exists>c \<in> set ''A very long first line with more than five words here''. \<not> isspace c)
   \<and> extract_name_from_resume ''A very long first line with more than five words here'' = Inr []"
proof -
  have 1: "\<exists>c \<in> set (''John Smith'' @ [CHR 0x0A] @ ''Rest...''). \<not> isspace c"
    by (simp add: char_simps)
  have 2: "\<exists>c \<in> set ''A very long first line with more than five words here''. \<not> isspace c"
    by (simp add: char_simps)
  show ?thesis
    using 1 2 extract_name_first_line [OF 1] extract_name_first_line [OF 2]
    by (simp add: str_simps char_simps)
qed

theorem extract_name_blank_counterexample:
  "'' '' \<noteq> [] \<and> extract_name_from_resume '' '' = Inl IndexError"
  by (simp add: extract_name_from_resume_def str_simps char_simps)

text \<open>
  Claim C10. \<open>extract_name_from_resume\<close> returns a value exactly on the texts whose
  \<open>strip()\<close> is not empty; on the others, which are the empty text and the texts of
  whitespace only, the list of lines is empty and the index \<open>[0]\<close> raises \<open>IndexError\<close>.
\<close>

theorem extract_name_total_iff:
  "(strip resume_text \<noteq> [] \<longrightarrow> (\<exists>name. extract_name_from_resume resume_text = Inr name))
   \<and> (strip resume_text = [] \<longrightarrow> extract_name_from_resume resume_text = Inl IndexError)
   \<and> (strip resume_text = [] \<longleftrightarrow> (\<forall>c \<in> set resume_text. isspace c))"
proof (cases "strip resume_text = []")
  case True
  then show ?thesis
    by (simp add: extract_name_from_resume_def strip_Nil_iff [symmetric])
next
  case False
  then show ?thesis
    by (simp add: extract_name_from_resume_def splitlines_nonempty strip_Nil_iff [symmetric])
qed

theorem extract_name_total_iff_witness:
  "strip ''Jo Smith'' \<noteq> [] \<and> (\<exists>name. extract_name_from_resume ''Jo Smith'' = Inr name)
   \<and> strip [CHR 0x20, CHR 0x0A] = [] \<and> extract_name_from_resume [CHR 0x20, CHR 0x0A] = Inl IndexError
   \<and> extract_name_from_resume [] = Inl IndexError"
  using extract_name_total_iff [of "''Jo Smith''"] extract_name_total_iff [of "[CHR 0x20, CHR 0x0A]"]
    extract_name_total_iff [of "[]"]
  by (simp add: str_simps char_simps)

section \<open>Properties of \<open>highlight_keywords\<close>\<close>

lemma highlight_manage_once: "highlight_keywords ''manage'' [''manage''] = ''**manage**''"
  by (simp add: highlight_keywords_def sorted_by_len_desc_def highlight_re_def emphasis_def
      re_simps char_simps)

lemma highlight_manage_twice: "highlight_keywords ''**manage**'' [''manage''] = ''****manage****''"
  by (simp add: highlight_keywords_def sorted_by_len_desc_def highlight_re_def emphasis_def
      re_simps char_simps)

text \<open>
  Claim C9. \<open>highlight_keywords\<close> is not idempotent: with the text \<open>manage\<close> and the one
  keyword \<open>manage\<close>, the first application gives \<open>**manage**\<close>, where the keyword still
  stands between word boundaries, and the second wraps it again.
\<close>

theorem highlight_keywords_not_idempotent:
  "\<exists>text keywords. highlight_keywords (highlight_keywords text keywords) keywords
      \<noteq> highlight_keywords text keywords"
proof (intro exI)
  show "highlight_keywords (highlight_keywords ''manage'' [''manage'']) [''manage'']
      \<noteq> highlight_keywords ''manage'' [''manage'']"
    by (simp add: highlight_manage_once highlight_manage_twice)
qed

section \<open>Properties of \<open>clean_job_description\<close>\<close>

lemma contains_iff_sublist: "contains s sub \<longleftrightarrow> sublist sub s"
  by (induction s) (simp_all add: sublist_Cons_right)

lemma is_cutoff_iff:
  "is_cutoff line \<longleftrightarrow> (\<exists>kw \<in> set cutoff_keywords. sublist kw (lower line))"
  by (simp add: is_cutoff_def list_ex_iff contains_iff_sublist)

lemma clean_loop_takeWhile:
  "clean_loop lines filtered = filtered @ takeWhile (\<lambda>line. \<not> is_cutoff line) lines"
  by (induction lines arbitrary: filtered) simp_all

lemma islinebreak_LF: "islinebreak (CHR 0x0A)"
  by (simp add: char_simps)

lemma isspace_LF: "isspace (CHR 0x0A)"
  by (simp add: char_simps)

lemma splitlines_eq_Nil_iff [simp]: "splitlines s = [] \<longleftrightarrow> s = []"
  by (subst splitlines.simps) simp

lemma join_nl_Cons: "ls \<noteq> [] \<Longrightarrow> join_nl (l # ls) = l @ CHR 0x0A # join_nl ls"
  by (cases ls) simp_all

lemma join_nl_splitlines:
  assumes "\<forall>c \<in> set t. islinebreak c \<longrightarrow> c = CHR 0x0A"
  shows "join_nl (splitlines t) = (if t \<noteq> [] \<and> last t = CHR 0x0A then butlast t else t)"
  using assms
proof (induction t rule: splitlines.induct)
  case (1 s)
  let ?nb = "\<lambda>c. \<not> islinebreak c"
  show ?case
  proof (cases "s = []")
    case True
    then show ?thesis by simp
  next
    case ne: False
    show ?thesis
    proof (cases "dropWhile ?nb s")
      case Nil
      then have all: "\<forall>c \<in> set s. ?nb c"
        by (simp add: dropWhile_eq_Nil_conv)
      then have tw: "takeWhile ?nb s = s"
        by (simp add: takeWhile_eq_all_conv)
      have "last s \<in> set s" using ne by simp
      with all have last: "last s \<noteq> CHR 0x0A"
        using islinebreak_LF by metis
      have "splitlines s = takeWhile ?nb s # splitlines (after_break (dropWhile ?nb s))"
        by (rule splitlines_nonempty [OF ne])
      then have "splitlines s = [s]"
        unfolding Nil tw by (simp add: after_break_def)
      with last show ?thesis
        by simp
    next
      case (Cons c r)
      then have c: "islinebreak c"
        using hd_dropWhile [of ?nb s] by auto
      have s: "s = takeWhile ?nb s @ c # r"
        using Cons takeWhile_dropWhile_id [of ?nb s] by simp
      then have "c \<in> set s"
        by (metis in_set_conv_decomp)
      with c "1.prems" have cLF: "c = CHR 0x0A" by blast
      then have ab: "after_break (dropWhile ?nb s) = r"
        using Cons by (simp add: after_break_def split: list.splits)
      have "set r \<subseteq> set s"
        using s by (metis set_subset_Cons set_append le_supI2 order_trans)
      with "1.prems" have r_ok: "\<forall>c \<in> set r. islinebreak c \<longrightarrow> c = CHR 0x0A"
        by blast
      have IH: "join_nl (splitlines r) = (if r \<noteq> [] \<and> last r = CHR 0x0A then butlast r else r)"
        using "1.IH" [OF ne] r_ok ab by simp
      have lines: "splitlines s = takeWhile ?nb s # splitlines r"
        using ne ab by (simp add: splitlines_nonempty)
      show ?thesis
      proof (cases "r = []")
        case True
        have "butlast s = takeWhile ?nb s"
          using s True cLF by (metis butlast_snoc)
        moreover have "last s = CHR 0x0A"
          using s True cLF by (metis last_snoc)
        ultimately show ?thesis
          using lines True ne by simp
      next
        case False
        have ls: "last s = last r"
          using s False by (metis last_appendR last_ConsR list.distinct(1))
        have bl: "butlast s = takeWhile ?nb s @ c # butlast r"
          using s False by (metis butlast_append butlast.simps(2) list.distinct(1))
        have "join_nl (splitlines s) = takeWhile ?nb s @ CHR 0x0A # join_nl (splitlines r)"
          using lines False by (simp add: join_nl_Cons)
        then show ?thesis
          using IH ls bl s False cLF ne by auto
      qed
    qed
  qed
qed

lemma strip_butlast_space:
  assumes "t \<noteq> []" and "isspace (last t)"
  shows "strip (butlast t) = strip t"
proof -
  obtain b x where t: "t = b @ [x]" and x: "isspace x"
    using assms by (metis append_butlast_last_id)
  show ?thesis
  proof (cases "\<forall>c \<in> set b. isspace c")
    case True
    then have "\<forall>c \<in> set t. isspace c" using t x by simp
    then have "strip t = []" by (simp add: strip_Nil_iff)
    moreover have "strip b = []" using True by (simp add: strip_Nil_iff)
    ultimately show ?thesis using t by simp
  next
    case False
    then obtain y where "y \<in> set b" "\<not> isspace y" by blast
    then have "dropWhile isspace (b @ [x]) = dropWhile isspace b @ [x]"
      by (rule dropWhile_append1)
    then show ?thesis
      using t x by (simp add: strip_def lstrip_def rstrip_def)
  qed
qed

text \<open>
  Claim C6, as the code has it. \<open>clean_job_description\<close> returns the lines (as
  \<open>splitlines\<close> cuts them) that stand before the first line whose lower case contains one of
  the five markers, joined with line feeds and trimmed; the marker line and everything
  after it is dropped. If no line has a marker and the only line boundaries of the text are
  line feeds, the output is the trimmed input. (Other line boundaries, such as CR LF, come
  out as line feeds: see the counterexample.)
\<close>

theorem clean_job_description_cuts_at_marker:
  "clean_job_description text
     = strip (join_nl (takeWhile (\<lambda>line. \<not> is_cutoff line) (splitlines text)))
   \<and> (\<forall>line. is_cutoff line \<longleftrightarrow>
         (\<exists>kw \<in> set [''why join us'', ''who we are'', ''what we offer'', ''equal opportunity'',
             ''requirements for success'']. sublist kw (lower line)))
   \<and> ((\<forall>line \<in> set (splitlines text). \<not> is_cutoff line)
        \<and> (\<forall>c \<in> set text. islinebreak c \<longrightarrow> c = CHR 0x0A)
       \<longrightarrow> clean_job_description text = strip text)"
proof (intro conjI impI allI)
  show 1: "clean_job_description text
     = strip (join_nl (takeWhile (\<lambda>line. \<not> is_cutoff line) (splitlines text)))"
    by (simp add: clean_job_description_def clean_loop_takeWhile)
  show "is_cutoff line \<longleftrightarrow>
         (\<exists>kw \<in> set [''why join us'', ''who we are'', ''what we offer'', ''equal opportunity'',
             ''requirements for success'']. sublist kw (lower line))" for line
    using is_cutoff_iff [of line] by (simp only: cutoff_keywords_def)
  show "clean_job_description text = strip text"
    if h: "(\<forall>line \<in> set (splitlines text). \<not> is_cutoff line)
        \<and> (\<forall>c \<in> set text. islinebreak c \<longrightarrow> c = CHR 0x0A)"
  proof -
    from h have "takeWhile (\<lambda>line. \<not> is_cutoff line) (splitlines text) = splitlines text"
      by (simp add: takeWhile_eq_all_conv)
    with 1 have "clean_job_description text = strip (join_nl (splitlines text))"
      by simp
    also have "\<dots> = strip (if text \<noteq> [] \<and> last text = CHR 0x0A then butlast text else text)"
      using h by (simp add: join_nl_splitlines)
    also have "\<dots> = strip text"
      using strip_butlast_space [of "text"] isspace_LF by auto
    finally show ?thesis .
  qed
qed


theorem clean_job_description_cuts_at_marker_witness:
  "clean_job_description (''Job'' @ [CHR 0x0A] @ ''desc '' @ [CHR 0x0A] @ ''  Why Join Us?''
       @ [CHR 0x0A] @ ''more'') = ''Job'' @ [CHR 0x0A] @ ''desc''
   \<and> is_cutoff ''  Why Join Us?''
   \<and> splitlines ('' a'' @ [CHR 0x0A] @ ''b'' @ [CHR 0x0A]) = ['' a'', ''b'']
   \<and> \<not> is_cutoff '' a'' \<and> \<not> is_cutoff ''b''
   \<and> clean_job_description ('' a'' @ [CHR 0x0A] @ ''b'' @ [CHR 0x0A]) = ''a'' @ [CHR 0x0A] @ ''b''
   \<and> strip ('' a'' @ [CHR 0x0A] @ ''b'' @ [CHR 0x0A]) = ''a'' @ [CHR 0x0A] @ ''b''"
proof -
  let ?t1 = "''Job'' @ [CHR 0x0A] @ ''desc '' @ [CHR 0x0A] @ ''  Why Join Us?'' @ [CHR 0x0A] @ ''more''"
  let ?t2 = "'' a'' @ [CHR 0x0A] @ ''b'' @ [CHR 0x0A]"
  have cut: "is_cutoff ''  Why Join Us?''"
    by (simp add: is_cutoff_def cutoff_keywords_def lower_def char_simps)
  have nocut: "\<not> is_cutoff ''Job''" "\<not> is_cutoff ''desc ''" "\<not> is_cutoff '' a''" "\<not> is_cutoff ''b''"
    by (simp_all add: is_cutoff_def cutoff_keywords_def lower_def char_simps)
  have l1: "splitlines ?t1 = [''Job'', ''desc '', ''  Why Join Us?'', ''more'']"
    by (simp add: str_simps char_simps)
  have l2: "splitlines ?t2 = ['' a'', ''b'']"
    by (simp add: str_simps char_simps)
  have "clean_job_description ?t1
      = strip (join_nl (takeWhile (\<lambda>line. \<not> is_cutoff line) (splitlines ?t1)))"
    using clean_job_description_cuts_at_marker [of ?t1] by blast
  then have r1: "clean_job_description ?t1 = ''Job'' @ [CHR 0x0A] @ ''desc''"
    unfolding l1 using cut nocut by (simp add: strip_def lstrip_def rstrip_def char_simps)
  have h: "(\<forall>line \<in> set (splitlines ?t2). \<not> is_cutoff line)
        \<and> (\<forall>c \<in> set ?t2. islinebreak c \<longrightarrow> c = CHR 0x0A)"
    unfolding l2 using nocut by (simp add: char_simps)
  have s2: "strip ?t2 = ''a'' @ [CHR 0x0A] @ ''b''"
    by (simp add: strip_def lstrip_def rstrip_def char_simps)
  have "clean_job_description ?t2 = strip ?t2"
    using clean_job_description_cuts_at_marker [of ?t2] h by blast
  with s2 have r2: "clean_job_description ?t2 = ''a'' @ [CHR 0x0A] @ ''b''"
    by simp
  show ?thesis
    using r1 cut l2 nocut r2 s2 by blast
qed

theorem clean_job_description_crlf_counterexample:
  "splitlines (''a'' @ [CHR 0x0D, CHR 0x0A] @ ''b'') = [''a'', ''b'']
   \<and> \<not> is_cutoff ''a'' \<and> \<not> is_cutoff ''b''
   \<and> clean_job_description (''a'' @ [CHR 0x0D, CHR 0x0A] @ ''b'') = ''a'' @ [CHR 0x0A] @ ''b''
   \<and> strip (''a'' @ [CHR 0x0D, CHR 0x0A] @ ''b'') = ''a'' @ [CHR 0x0D, CHR 0x0A] @ ''b''
   \<and> clean_job_description (''a'' @ [CHR 0x0D, CHR 0x0A] @ ''b'')
       \<noteq> strip (''a'' @ [CHR 0x0D, CHR 0x0A] @ ''b'')"
  by (simp add: clean_job_description_def is_cutoff_def cutoff_keywords_def str_simps char_simps)

section \<open>Properties of \<open>extract_keywords\<close>\<close>

text \<open>The maximal runs of characters of a class, from left to right.\<close>

function runs :: "(char \<Rightarrow> bool) \<Rightarrow> string \<Rightarrow> string list" where
  "runs P s =
     (case dropWhile (\<lambda>c. \<not> P c) s of
        [] \<Rightarrow> []
      | c # r \<Rightarrow> (c # takeWhile P r) # runs P (dropWhile P r))"
  by pat_completeness auto

lemma length_runs_rest:
  assumes "dropWhile Q s = c # r"
  shows "length (dropWhile P r) < length s"
proof -
  have "length (dropWhile P r) \<le> length r"
    by (rule length_dropWhile_le)
  also have "\<dots> < length (dropWhile Q s)"
    using assms by simp
  also have "\<dots> \<le> length s"
    by (rule length_dropWhile_le)
  finally show ?thesis .
qed

termination runs
  by (relation "measure (\<lambda>(P, s). length s)") (simp_all add: length_runs_rest)

declare runs.simps [simp del]

definition keyword_ok :: "string \<Rightarrow> bool" where
  "keyword_ok w = (4 \<le> length w \<and> list_all ascii_letter w)"

lemma runs_Nil [simp]: "runs P [] = []"
  by (simp add: runs.simps)

lemma runs_skip: "\<not> P c \<Longrightarrow> runs P (c # cs) = runs P cs"
  by (simp add: runs.simps [of P "c # cs"] runs.simps [of P cs])

lemma runs_take: "P c \<Longrightarrow> runs P (c # cs) = (c # takeWhile P cs) # runs P (dropWhile P cs)"
  by (simp add: runs.simps [of P "c # cs"])

lemma runs_dropWhile_not: "runs P (dropWhile (\<lambda>c. \<not> P c) s) = runs P s"
  by (induction s) (simp_all add: runs_skip)

lemma ascii_letter_isword: "ascii_letter c \<Longrightarrow> isword c"
  by (simp add: isword_def isalnum_def)

lemma later_group_None_id [simp]: "later_group None x = x"
  by (cases x) (simp add: later_group_def split: option.splits)

lemma map_later_group_None [simp]: "map (later_group None) xs = xs"
  by (induction xs) simp_all

lemma then_match_append: "then_match f (xs @ ys) = then_match f xs @ then_match f ys"
  by (induction xs) simp_all

lemma rmatch_Seq_Cls:
  "rmatch (Seq (Cls P) b) (p, s) =
     (case s of [] \<Rightarrow> [] | c # cs \<Rightarrow> if P c then rmatch b (Some c, cs) else [])"
  by (simp split: list.splits)

lemma rmatch_AtLeast4:
  "rmatch (AtLeast4 (Cls P)) (p, c1 # c2 # c3 # c4 # r) =
     (if P c1 \<and> P c2 \<and> P c3 \<and> P c4 then rmatch (Star (Cls P)) (Some c4, r) else [])"
  by (simp add: AtLeast4_def rmatch_Seq_Cls del: rmatch.simps)

lemma rmatch_AtLeast4_short:
  "rmatch (AtLeast4 (Cls P)) (p, []) = []"
  "rmatch (AtLeast4 (Cls P)) (p, [c1]) = []"
  "rmatch (AtLeast4 (Cls P)) (p, [c1, c2]) = []"
  "rmatch (AtLeast4 (Cls P)) (p, [c1, c2, c3]) = []"
  by (simp_all add: AtLeast4_def rmatch_Seq_Cls del: rmatch.simps)

lemma star_letters_then_boundary:
  assumes "isword c0"
  shows "then_match (rmatch Bnd) (rmatch (Star (Cls ascii_letter)) (Some c0, s)) =
     (if list_all ascii_letter (takeWhile isword s)
      then [(None, (Some (last (c0 # takeWhile isword s)), dropWhile isword s))] else [])"
  using assms
proof (induction s arbitrary: c0)
  case Nil
  then show ?case
    by (simp add: rmatch_Star_Cls_Nil at_boundary_def word_before_def word_after_def)
next
  case (Cons d r)
  show ?case
  proof (cases "isword d")
    case True
    then show ?thesis
      using Cons.IH [of d] Cons.prems ascii_letter_isword [of d]
      by (simp add: rmatch_Star_Cls_Cons then_match_append at_boundary_def word_before_def
          word_after_def)
  next
    case False
    then have "\<not> ascii_letter d"
      using ascii_letter_isword by blast
    with False show ?thesis
      using Cons.prems
      by (simp add: rmatch_Star_Cls_Cons then_match_append at_boundary_def word_before_def
          word_after_def)
  qed
qed


text \<open>The matches of the keyword pattern at one position.\<close>

lemma keyword_tail:
  "then_match (rmatch Bnd) (rmatch (AtLeast4 (Cls ascii_letter)) (p, s)) =
     (if keyword_ok (takeWhile isword s)
      then [(None, (Some (last (takeWhile isword s)), dropWhile isword s))] else [])"
proof -
  consider "s = []" | c1 where "s = [c1]" | c1 c2 where "s = [c1, c2]"
    | c1 c2 c3 where "s = [c1, c2, c3]" | c1 c2 c3 c4 r where "s = c1 # c2 # c3 # c4 # r"
    by (metis list.exhaust)
  then show ?thesis
  proof cases
    case 1
    then show ?thesis by (simp add: rmatch_AtLeast4_short keyword_ok_def)
  next
    case 2
    then show ?thesis by (simp add: rmatch_AtLeast4_short keyword_ok_def)
  next
    case 3
    then show ?thesis by (simp add: rmatch_AtLeast4_short keyword_ok_def)
  next
    case 4
    then show ?thesis by (simp add: rmatch_AtLeast4_short keyword_ok_def)
  next
    case 5
    show ?thesis
    proof (cases "ascii_letter c1 \<and> ascii_letter c2 \<and> ascii_letter c3 \<and> ascii_letter c4")
      case True
      then have w: "isword c1" "isword c2" "isword c3" "isword c4"
        by (simp_all add: ascii_letter_isword)
      with True 5 show ?thesis
        by (simp add: rmatch_AtLeast4 star_letters_then_boundary keyword_ok_def)
    next
      case False
      have "\<not> keyword_ok (takeWhile isword s)"
      proof
        assume ok: "keyword_ok (takeWhile isword s)"
        then have len: "4 \<le> length (takeWhile isword s)"
          and all: "list_all ascii_letter (takeWhile isword s)"
          by (simp_all add: keyword_ok_def)
        from len 5 have "isword c1 \<and> isword c2 \<and> isword c3 \<and> isword c4"
          by (auto split: if_splits)
        with all 5 have "ascii_letter c1 \<and> ascii_letter c2 \<and> ascii_letter c3 \<and> ascii_letter c4"
          by simp
        with False show False by blast
      qed
      then have nk: "keyword_ok (takeWhile isword s) = False"
        by simp
      have "rmatch (AtLeast4 (Cls ascii_letter)) (p, s) = []"
        unfolding 5 using False by (auto simp: rmatch_AtLeast4)
      then show ?thesis
        unfolding nk by simp
    qed
  qed
qed

lemma rmatch_keyword_re:
  "rmatch keyword_re (p, s) =
     (if at_boundary (p, s) \<and> keyword_ok (takeWhile isword s)
      then [(None, (Some (last (takeWhile isword s)), dropWhile isword s))] else [])"
proof -
  have "rmatch keyword_re (p, s) =
      (if at_boundary (p, s)
       then then_match (rmatch Bnd) (rmatch (AtLeast4 (Cls ascii_letter)) (p, s)) else [])"
    by (simp add: keyword_re_def)
  then show ?thesis
    by (simp add: keyword_tail)
qed

lemma rmatch_keyword_re_inside: "word_before p \<Longrightarrow> rmatch keyword_re (p, s) = []"
  by (cases s) (auto simp: rmatch_keyword_re at_boundary_def word_after_def keyword_ok_def)

lemma rmatch_keyword_re_start:
  assumes "\<not> word_before p"
  shows "rmatch keyword_re (p, s) =
     (if keyword_ok (takeWhile isword s)
      then [(None, (Some (last (takeWhile isword s)), dropWhile isword s))] else [])"
proof (cases "word_after s")
  case True
  with assms show ?thesis
    by (simp add: rmatch_keyword_re at_boundary_def)
next
  case False
  then have "takeWhile isword s = []"
    by (cases s) (simp_all add: word_after_def)
  then show ?thesis
    by (simp add: rmatch_keyword_re keyword_ok_def)
qed


lemma take_length_dropWhile: "take (length s - length (dropWhile P s)) s = takeWhile P s"
proof -
  have "length (takeWhile P s @ dropWhile P s) = length s"
    by simp
  then have "length s - length (dropWhile P s) = length (takeWhile P s)"
    by (simp only: length_append)
  then show ?thesis
    using takeWhile_eq_take [of P s] by simp
qed

lemma dropWhile_idem: "dropWhile P (dropWhile P s) = dropWhile P s"
  by (induction s) simp_all

lemma findall_from_None:
  "match_at adv r (p, s) = None \<Longrightarrow>
   findall_from r adv (p, s) = (case s of [] \<Rightarrow> [] | c # cs \<Rightarrow> findall_from r False (Some c, cs))"
  by (subst findall_from.simps) simp

lemma findall_from_Some:
  "match_at adv r (p, s) = Some (g, (p', s')) \<Longrightarrow>
   findall_from r adv (p, s) = consumed (p, s) (p', s') # findall_from r (s' = s) (p', s')"
  by (subst findall_from.simps) simp

text \<open>The matches of the keyword pattern in a text: the runs of word characters that
  are made of four or more ASCII letters.\<close>

lemma findall_keyword_re:
  "findall_from keyword_re adv (p, s) =
     filter keyword_ok (runs isword (if word_before p then dropWhile isword s else s))"
proof (induction "length s" arbitrary: p s adv rule: less_induct)
  case less
  have step: "findall_from keyword_re False (Some c, cs) =
      filter keyword_ok (runs isword (if isword c then dropWhile isword cs else cs))"
    if "s = c # cs" for c cs
  proof -
    have "findall_from keyword_re False (Some c, cs) =
      filter keyword_ok (runs isword (if word_before (Some c) then dropWhile isword cs else cs))"
      by (rule less) (simp add: that)
    then show ?thesis
      by (simp add: word_before_def)
  qed
  show ?case
  proof (cases "word_before p")
    case True
    then have m: "match_at adv keyword_re (p, s) = None"
      by (simp add: match_at_def rmatch_keyword_re_inside)
    show ?thesis
    proof (cases s)
      case Nil
      with m True show ?thesis by (simp add: findall_from_None)
    next
      case (Cons c cs)
      with m True step [OF Cons] show ?thesis
        by (simp add: findall_from_None runs_skip)
    qed
  next
    case False
    let ?w = "takeWhile isword s" and ?rest = "dropWhile isword s"
    show ?thesis
    proof (cases "keyword_ok ?w")
      case True
      then have "?w \<noteq> []"
        by (auto simp: keyword_ok_def)
      then obtain c cs where s: "s = c # cs" and c: "isword c"
        by (cases s) (auto split: if_splits)
      have shorter: "length ?rest < length s"
        using s c length_dropWhile_le [of isword cs] by simp
      then have ne: "?rest \<noteq> s" by auto
      have "match_at adv keyword_re (p, s) = Some (None, (Some (last ?w), ?rest))"
        using False True ne by (simp add: match_at_def rmatch_keyword_re_start)
      then have "findall_from keyword_re adv (p, s)
          = consumed (p, s) (Some (last ?w), ?rest)
            # findall_from keyword_re (?rest = s) (Some (last ?w), ?rest)"
        by (rule findall_from_Some)
      also have "consumed (p, s) (Some (last ?w), ?rest) = ?w"
        by (simp add: consumed_def take_length_dropWhile)
      also have "findall_from keyword_re (?rest = s) (Some (last ?w), ?rest)
          = filter keyword_ok (runs isword
              (if word_before (Some (last ?w)) then dropWhile isword ?rest else ?rest))"
        by (rule less) (rule shorter)
      also have "\<dots> = filter keyword_ok (runs isword ?rest)"
        by (simp add: dropWhile_idem)
      finally have "findall_from keyword_re adv (p, s)
          = ?w # filter keyword_ok (runs isword ?rest)" .
      moreover have "runs isword s = ?w # runs isword ?rest"
        using s c by (simp add: runs_take)
      ultimately show ?thesis
        using False True by simp
    next
      case nok: False
      have m: "match_at adv keyword_re (p, s) = None"
        using False nok by (simp add: match_at_def rmatch_keyword_re_start)
      show ?thesis
      proof (cases s)
        case Nil
        with m False show ?thesis by (simp add: findall_from_None)
      next
        case (Cons c cs)
        show ?thesis
        proof (cases "isword c")
          case True
          with nok Cons have "\<not> keyword_ok (c # takeWhile isword cs)" by simp
          with m False step [OF Cons] Cons True show ?thesis
            by (simp add: findall_from_None runs_take)
        next
          case notw: False
          with m False step [OF Cons] Cons show ?thesis
            by (simp add: findall_from_None runs_skip)
        qed
      qed
    qed
  qed
qed

lemma re_findall_keyword_re:
  "re_findall keyword_re s = filter keyword_ok (runs isword s)"
  by (simp add: re_findall_def findall_keyword_re word_before_def)

text \<open>
  Claim C5, as the code has it. \<open>extract_keywords\<close> returns a sorted list without
  duplicates; its elements are exactly the runs of word characters (\<open>\w\<close>) of the lowercased
  text that consist of four or more ASCII letters. So a run of letters counts only as a
  whole word: next to a digit, an underscore or a letter outside ASCII it is not a keyword
  (see the counterexample). A text without such a word gives the empty list.
\<close>

theorem extract_keywords_whole_words:
  "sorted (extract_keywords text) \<and> distinct (extract_keywords text)
   \<and> set (extract_keywords text)
       = {w \<in> set (runs isword (lower text)). 4 \<le> length w \<and> (\<forall>c \<in> set w. ascii_letter c)}
   \<and> ((\<forall>w \<in> set (runs isword (lower text)). \<not> (4 \<le> length w \<and> (\<forall>c \<in> set w. ascii_letter c)))
        \<longrightarrow> extract_keywords text = [])"
proof (intro conjI impI)
  let ?ws = "re_findall keyword_re (lower text)"
  have ws: "set ?ws
      = {w \<in> set (runs isword (lower text)). 4 \<le> length w \<and> (\<forall>c \<in> set w. ascii_letter c)}"
    by (auto simp: re_findall_keyword_re keyword_ok_def list_all_iff)
  show "sorted (extract_keywords text)"
    by (simp add: extract_keywords_def)
  show "distinct (extract_keywords text)"
    by (simp add: extract_keywords_def)
  have "set (extract_keywords text) = set ?ws"
    by (simp add: extract_keywords_def)
  then show "set (extract_keywords text)
      = {w \<in> set (runs isword (lower text)). 4 \<le> length w \<and> (\<forall>c \<in> set w. ascii_letter c)}"
    by (simp only: ws)
  show "extract_keywords text = []"
    if h: "\<forall>w \<in> set (runs isword (lower text)). \<not> (4 \<le> length w \<and> (\<forall>c \<in> set w. ascii_letter c))"
  proof -
    have "set ?ws = {}"
      unfolding ws using h by blast
    then have "?ws = []"
      by (simp only: set_empty)
    then show ?thesis
      by (simp add: extract_keywords_def)
  qed
qed


theorem extract_keywords_whole_words_witness:
  "runs isword (lower ''Cats and dogs run fast'') = [''cats'', ''and'', ''dogs'', ''run'', ''fast'']
   \<and> set (extract_keywords ''Cats and dogs run fast'') = {''cats'', ''dogs'', ''fast''}
   \<and> extract_keywords ''Cats and dogs run fast'' = [''cats'', ''dogs'', ''fast'']
   \<and> runs isword (lower ''a, b1'') = [''a'', ''b1'']
   \<and> extract_keywords ''a, b1'' = []"
proof -
  have r1: "runs isword (lower ''Cats and dogs run fast'')
      = [''cats'', ''and'', ''dogs'', ''run'', ''fast'']"
    by (simp add: runs.simps lower_def char_simps)
  have r2: "runs isword (lower ''a, b1'') = [''a'', ''b1'']"
    by (simp add: runs.simps lower_def char_simps)
  have "set (extract_keywords ''Cats and dogs run fast'')
      = {w \<in> set (runs isword (lower ''Cats and dogs run fast'')).
          4 \<le> length w \<and> (\<forall>c \<in> set w. ascii_letter c)}"
    using extract_keywords_whole_words [of "''Cats and dogs run fast''"] by blast
  also have "\<dots> = set (filter (\<lambda>w. 4 \<le> length w \<and> list_all ascii_letter w)
      [''cats'', ''and'', ''dogs'', ''run'', ''fast''])"
    unfolding r1 by (simp only: set_filter list_all_iff)
  also have "\<dots> = {''cats'', ''dogs'', ''fast''}"
    by (simp add: char_simps)
  finally have s1: "set (extract_keywords ''Cats and dogs run fast'') = {''cats'', ''dogs'', ''fast''}" .
  have "filter keyword_ok [''cats'', ''and'', ''dogs'', ''run'', ''fast'']
      = [''cats'', ''dogs'', ''fast'']"
    by (simp add: keyword_ok_def char_simps)
  then have l1: "extract_keywords ''Cats and dogs run fast'' = [''cats'', ''dogs'', ''fast'']"
    by (simp add: extract_keywords_def re_findall_keyword_re r1 sorted_list_of_set_sort_remdups)
  have "\<forall>w \<in> set (runs isword (lower ''a, b1'')).
      \<not> (4 \<le> length w \<and> (\<forall>c \<in> set w. ascii_letter c))"
    unfolding r2 by simp
  then have l2: "extract_keywords ''a, b1'' = []"
    using extract_keywords_whole_words [of "''a, b1''"] by blast
  show ?thesis
    using r1 s1 l1 r2 l2 by blast
qed

theorem extract_keywords_digit_counterexample:
  "runs ascii_letter (lower ''abcd1'') = [''abcd''] \<and> 4 \<le> length ''abcd''
   \<and> extract_keywords ''abcd1'' = []"
  by (simp add: extract_keywords_def keyword_re_def lower_def sorted_list_of_set_sort_remdups
      runs.simps re_simps char_simps)

section \<open>The passes of \<open>highlight_keywords\<close> and their order\<close>

text \<open>
  One pass of \<open>highlight_keywords\<close> as a scan of the text. \<open>bounded_at\<close> is what the pattern
  \<open>\b(kw)\b\<close> asks of a position: a boundary, the keyword in any case, a boundary. The scan
  \<open>wrap_from\<close> reads the text from left to right; where \<open>bounded_at\<close> holds the piece of text
  is put between \<open>**\<close> and reading goes on after it; any other character is copied.
\<close>

fun ci_prefix :: "string \<Rightarrow> string \<Rightarrow> bool" where
  "ci_prefix [] s = True"
| "ci_prefix (k # ks) [] = False"
| "ci_prefix (k # ks) (c # cs) = (lower_char c = lower_char k \<and> ci_prefix ks cs)"

text \<open>The position \<open>n\<close> characters further on.\<close>

definition advance :: "pos \<Rightarrow> nat \<Rightarrow> pos" where
  "advance q n =
     (if take n (snd q) = [] then fst q else Some (last (take n (snd q))), drop n (snd q))"






lemma advance_Suc: "advance (p, c # cs) (Suc n) = advance (Some c, cs) n"
  by (simp add: advance_def)

lemma advance_0: "advance q 0 = q"
  by (simp add: advance_def)

lemma rmatch_ci_lit:
  "rmatch (ci_lit kw) (p, s) = (if ci_prefix kw s then [(None, advance (p, s) (length kw))] else [])"
proof (induction kw arbitrary: p s)
  case Nil
  then show ?case by (simp add: advance_0)
next
  case (Cons k ks)
  show ?case
  proof (cases s)
    case Nil
    then show ?thesis by (simp add: ci_chr_def)
  next
    case (Cons c cs)
    have "rmatch (ci_lit (k # ks)) (p, c # cs) =
        (if lower_char c = lower_char k then rmatch (ci_lit ks) (Some c, cs) else [])"
      by (simp add: ci_chr_def)
    then show ?thesis
      using Cons Cons.IH [of "Some c" cs] by (simp add: advance_Suc)
  qed
qed











text \<open>The order in which the keywords are taken.\<close>

lemma set_sorted_by_len_desc [simp]: "set (sorted_by_len_desc ks) = set ks"
  by (simp add: sorted_by_len_desc_def)

lemma length_sorted_by_len_desc [simp]: "length (sorted_by_len_desc ks) = length ks"
  by (simp add: sorted_by_len_desc_def)


lemma sorted_by_len_desc_stable:
  "filter (\<lambda>k. length k = n) (sorted_by_len_desc ks) = filter (\<lambda>k. length k = n) ks"
  by (simp add: sorted_by_len_desc_def rev_filter [symmetric] sort_key_stable)


section \<open>Properties of \<open>extract_job_title_and_company\<close>\<close>

text \<open>
  The search for the title pattern, written without a pattern: \<open>title_scan\<close> reads the text
  from left to right and stops at the first position where one of the three keywords
  stands (in any case) and a group can follow it. After the keyword an optional \<open>:\<close> or
  \<open>-\<close> and then whitespace are skipped, as much as leaves a group to take; the group is the
  rest of the line, to the next line feed, and has at least one character.
\<close>

definition rest_of_line :: "string \<Rightarrow> string" where
  "rest_of_line s = takeWhile (\<lambda>c. c \<noteq> CHR 0x0A) s"

fun group_after_ws :: "string \<Rightarrow> string option" where
  "group_after_ws [] = None"
| "group_after_ws (c # cs) =
     (if isspace c
      then (case group_after_ws cs of
              Some g \<Rightarrow> Some g
            | None \<Rightarrow> if c \<noteq> CHR 0x0A then Some (rest_of_line (c # cs)) else None)
      else Some (rest_of_line (c # cs)))"

definition group_after_keyword :: "string \<Rightarrow> string option" where
  "group_after_keyword s =
     (case s of
        [] \<Rightarrow> None
      | c # cs \<Rightarrow>
          if c = CHR '':'' \<or> c = CHR ''-''
          then (case group_after_ws cs of Some g \<Rightarrow> Some g | None \<Rightarrow> group_after_ws s)
          else group_after_ws s)"

definition group_at :: "string \<Rightarrow> string \<Rightarrow> string option" where
  "group_at kw s = (if ci_prefix kw s then group_after_keyword (drop (length kw) s) else None)"

definition title_group_at :: "string \<Rightarrow> string option" where
  "title_group_at s =
     (case group_at ''title'' s of
        Some g \<Rightarrow> Some g
      | None \<Rightarrow> (case group_at ''position'' s of
            Some g \<Rightarrow> Some g
          | None \<Rightarrow> group_at ''role'' s))"

fun title_scan :: "string \<Rightarrow> string option" where
  "title_scan [] = title_group_at []"
| "title_scan (c # cs) =
     (case title_group_at (c # cs) of
        Some g \<Rightarrow> Some g
      | None \<Rightarrow> title_scan cs)"

text \<open>The first result of a list of results, and its group.\<close>

definition first_of :: "'a list \<Rightarrow> 'a option" where
  "first_of xs = (case xs of [] \<Rightarrow> None | x # _ \<Rightarrow> Some x)"

lemma first_of_simps [simp]:
  "first_of [] = None" "first_of (x # xs) = Some x"
  by (simp_all add: first_of_def)

lemma first_of_append:
  "first_of (xs @ ys) = (case first_of xs of Some x \<Rightarrow> Some x | None \<Rightarrow> first_of ys)"
  by (cases xs) simp_all

lemma match_at_False: "match_at False r q = first_of (rmatch r q)"
  by (simp add: match_at_def first_of_def)

lemma code_less_256: "code c < 256"
  by (simp add: code_def)

lemma char_eq_code: "c = d \<longleftrightarrow> code c = code d"
  by (simp add: code_def)

lemma code_lower_char:
  "code (lower_char c) =
     (if ascii_upper c \<or> in_range 192 214 c \<or> in_range 216 222 c then code c + 32 else code c)"
proof -
  have "(code c + 32) mod 256 = code c + 32" if "code c \<le> 222"
    using that by simp
  then show ?thesis
    by (auto simp: lower_char_def code_def in_range_def ascii_upper_def)
qed

lemma code_upper_char:
  "code (upper_char c) =
     (if ascii_lower c \<or> in_range 224 246 c \<or> in_range 248 254 c then code c - 32 else code c)"
proof -
  have "(code c - 32) mod 256 = code c - 32"
    using code_less_256 [of c] by simp
  then show ?thesis
    by (auto simp: upper_char_def code_def in_range_def ascii_lower_def)
qed

lemma code_sep: "code (CHR '':'') = 58" "code (CHR ''-'') = 45"
  by (simp_all add: code_def)

lemma ci_sep:
  "(lower_char x = CHR '':'' \<or> lower_char x = CHR ''-''
     \<or> upper_char x = CHR '':'' \<or> upper_char x = CHR ''-'')
   \<longleftrightarrow> (x = CHR '':'' \<or> x = CHR ''-'')"
  by (auto simp: char_eq_code code_lower_char code_upper_char code_sep in_range_def
      ascii_upper_def ascii_lower_def split: if_splits)


definition first_group :: "result list \<Rightarrow> string option option" where
  "first_group xs = map_option fst (first_of xs)"

lemma first_group_Nil [simp]: "first_group [] = None"
  by (simp add: first_group_def)

lemma first_group_append:
  "first_group (xs @ ys) = (case first_group xs of Some g \<Rightarrow> Some g | None \<Rightarrow> first_group ys)"
  by (cases xs) (simp_all add: first_group_def)

lemma first_group_if_Nil:
  "first_group (if b then xs else []) = (if b then first_group xs else None)"
  by simp

lemma then_match_single [simp]: "then_match f [(None, q)] = f q"
  by simp

lemma first_of_Star_Cls:
  "first_of (rmatch (Star (Cls P)) (p, s)) =
     Some (None, (if takeWhile P s = [] then p else Some (last (takeWhile P s)), dropWhile P s))"
proof (induction s arbitrary: p)
  case Nil
  then show ?case by (simp add: rmatch_Star_Cls_Nil)
next
  case (Cons c cs)
  then show ?case
    by (simp add: rmatch_Star_Cls_Cons first_of_append)
qed

lemma first_group_line:
  "first_group (rmatch (Grp (Plus (Cls (\<lambda>c. c \<noteq> CHR 0x0A)))) (p, s)) =
     (case s of
        [] \<Rightarrow> None
      | c # cs \<Rightarrow> if c \<noteq> CHR 0x0A then Some (Some (rest_of_line (c # cs))) else None)"
proof (cases s)
  case Nil
  then show ?thesis
    by (simp add: Plus_def first_group_def)
next
  case (Cons c cs)
  let ?N = "\<lambda>c. c \<noteq> CHR 0x0A"
  show ?thesis
  proof (cases "c = CHR 0x0A")
    case True
    with Cons show ?thesis
      by (simp add: Plus_def first_group_def)
  next
    case False
    have "rmatch (Plus (Cls ?N)) (p, c # cs) = rmatch (Star (Cls ?N)) (Some c, cs)"
      using False by (simp add: Plus_def rmatch_Seq_Cls del: rmatch.simps(4))
    then obtain x xs where x: "rmatch (Plus (Cls ?N)) (p, c # cs) = x # xs"
      and sx: "snd (snd x) = dropWhile ?N cs"
      using first_of_Star_Cls [of ?N "Some c" cs]
      by (cases "rmatch (Star (Cls ?N)) (Some c, cs)") auto
    have "length cs - length (dropWhile ?N cs) \<le> length cs"
      by simp
    have "consumed (p, c # cs) (snd x) = c # take (length cs - length (dropWhile ?N cs)) cs"
      using sx length_dropWhile_le [of ?N cs] by (simp add: consumed_def Suc_diff_le)
    then have "consumed (p, c # cs) (snd x) = c # takeWhile ?N cs"
      by (simp only: take_length_dropWhile)
    then show ?thesis
      using Cons False x by (simp add: first_group_def rest_of_line_def)
  qed
qed

lemma isspace_LF_char: "\<not> isspace c \<Longrightarrow> c \<noteq> CHR 0x0A"
  using isspace_LF by blast

lemma first_group_after_ws:
  "first_group (rmatch (Seq (Star (Cls isspace)) (Grp (Plus (Cls (\<lambda>c. c \<noteq> CHR 0x0A))))) (p, s))
     = map_option Some (group_after_ws s)"
proof (induction s arbitrary: p)
  case Nil
  then show ?case
    by (simp add: rmatch_Star_Cls_Nil first_group_line del: rmatch.simps(7))
next
  case (Cons c cs)
  let ?G = "Grp (Plus (Cls (\<lambda>c. c \<noteq> CHR 0x0A)))"
  have "rmatch (Seq (Star (Cls isspace)) ?G) (p, c # cs) =
      (if isspace c then rmatch (Seq (Star (Cls isspace)) ?G) (Some c, cs) else [])
      @ rmatch ?G (p, c # cs)"
    by (simp add: rmatch_Star_Cls_Cons then_match_append del: rmatch.simps(7))
  then have "first_group (rmatch (Seq (Star (Cls isspace)) ?G) (p, c # cs)) =
      (case (if isspace c then map_option Some (group_after_ws cs) else None) of
         Some g \<Rightarrow> Some g
       | None \<Rightarrow> if c \<noteq> CHR 0x0A then Some (Some (rest_of_line (c # cs))) else None)"
    using Cons.IH [of "Some c"]
    by (simp only: first_group_append first_group_if_Nil first_group_line list.case)
  then show ?case
    by (auto simp: isspace_LF_char split: option.splits)
qed


lemma rmatch_Opt_sep:
  "rmatch (Opt (ci_cls (\<lambda>c. c = CHR '':'' \<or> c = CHR ''-''))) (p, s) =
     (case s of
        [] \<Rightarrow> []
      | c # cs \<Rightarrow> if c = CHR '':'' \<or> c = CHR ''-'' then [(None, (Some c, cs))] else [])
     @ [(None, (p, s))]"
  by (cases s) (simp_all add: Opt_def ci_cls_def ci_sep)

lemma first_group_after_keyword:
  "first_group (rmatch (Seq (Opt (ci_cls (\<lambda>c. c = CHR '':'' \<or> c = CHR ''-'')))
       (Seq (Star (Cls isspace)) (Grp (Plus (Cls (\<lambda>c. c \<noteq> CHR 0x0A)))))) (p, s))
     = map_option Some (group_after_keyword s)"
proof -
  let ?X = "Seq (Star (Cls isspace)) (Grp (Plus (Cls (\<lambda>c. c \<noteq> CHR 0x0A))))"
  let ?O = "Opt (ci_cls (\<lambda>c. c = CHR '':'' \<or> c = CHR ''-''))"
  have split: "rmatch (Seq ?O ?X) (p, s) =
      (case s of
         [] \<Rightarrow> []
       | c # cs \<Rightarrow> if c = CHR '':'' \<or> c = CHR ''-'' then rmatch ?X (Some c, cs) else [])
      @ rmatch ?X (p, s)"
  proof -
    have "rmatch (Seq ?O ?X) (p, s) = then_match (rmatch ?X) (rmatch ?O (p, s))"
      by (rule rmatch.simps(4))
    then show ?thesis
      by (cases s) (simp_all add: rmatch_Opt_sep del: rmatch.simps)
  qed
  show ?thesis
  proof (cases s)
    case Nil
    then show ?thesis
      unfolding split by (simp add: first_group_after_ws group_after_keyword_def del: rmatch.simps)
  next
    case (Cons c cs)
    then show ?thesis
      unfolding split
      by (simp add: first_group_append first_group_after_ws group_after_keyword_def
          del: rmatch.simps split: option.splits)
  qed
qed

lemma snd_advance [simp]: "snd (advance q n) = drop n (snd q)"
  by (simp add: advance_def)

lemma first_group_title_re:
  "first_group (rmatch title_re (p, s)) = map_option Some (title_group_at s)"
proof -
  let ?J = "Seq (Opt (ci_cls (\<lambda>c. c = CHR '':'' \<or> c = CHR ''-'')))
       (Seq (Star (Cls isspace)) (Grp (Plus (Cls (\<lambda>c. c \<noteq> CHR 0x0A)))))"
  have one: "first_group (then_match (rmatch ?J) (rmatch (ci_lit kw) (p, s)))
      = map_option Some (group_at kw s)" for kw
  proof (cases "ci_prefix kw s")
    case True
    obtain p' where "advance (p, s) (length kw) = (p', drop (length kw) s)"
      by (simp add: advance_def)
    with True show ?thesis
      by (simp add: rmatch_ci_lit group_at_def first_group_after_keyword del: rmatch.simps)
  next
    case False
    then show ?thesis
      by (simp add: rmatch_ci_lit group_at_def)
  qed
  have "rmatch title_re (p, s) =
      then_match (rmatch ?J) (rmatch (ci_lit ''title'') (p, s))
      @ then_match (rmatch ?J) (rmatch (ci_lit ''position'') (p, s))
      @ then_match (rmatch ?J) (rmatch (ci_lit ''role'') (p, s))"
    unfolding title_re_def rmatch.simps(4) [of "Alt _ _"] rmatch.simps(5) then_match_append
    by (rule refl)
  then show ?thesis
    by (simp only: first_group_append one title_group_at_def) (simp split: option.splits)
qed

lemma search_from_title_re: "search_from title_re p s = map_option Some (title_scan s)"
proof (induction s arbitrary: p)
  case Nil
  have "search_from title_re p [] = first_group (rmatch title_re (p, []))"
    by (simp add: match_at_False first_group_def)
  then show ?case
    by (simp add: first_group_title_re)
next
  case (Cons c cs)
  have "map_option fst (match_at False title_re (p, c # cs)) = map_option Some (title_group_at (c # cs))"
    using first_group_title_re [of p "c # cs"] by (simp add: match_at_False first_group_def)
  then show ?case
    using Cons.IH [of "Some c"]
    by (cases "match_at False title_re (p, c # cs)"; cases "title_group_at (c # cs)") auto
qed


text \<open>The group of the company pattern takes part in every match, so \<open>group(1)\<close> is a
  text and \<open>strip\<close> does not raise.\<close>

lemma rmatch_Seq_Grp_group:
  assumes "x \<in> set (rmatch (Seq a (Grp b)) q)"
  shows "fst x \<noteq> None"
proof -
  from assms have "x \<in> set (then_match (rmatch (Grp b)) (rmatch a q))"
    by simp
  then obtain y z where "z \<in> set (rmatch (Grp b) (snd y))" and x: "x = later_group (fst y) z"
    unfolding set_then_match by blast
  then have "fst z \<noteq> None" by auto
  with x show ?thesis
    by (auto simp: later_group_def split: option.splits)
qed

lemma search_from_group:
  assumes "\<And>q x. x \<in> set (rmatch r q) \<Longrightarrow> fst x \<noteq> None"
  shows "search_from r p s \<noteq> Some None"
proof (induction s arbitrary: p)
  case Nil
  show ?case
  proof (cases "rmatch r (p, [])")
    case Nil
    then show ?thesis by (simp add: match_at_False)
  next
    case (Cons x xs)
    then have "x \<in> set (rmatch r (p, []))" by simp
    then have "fst x \<noteq> None" by (rule assms)
    with Cons show ?thesis by (simp add: match_at_False)
  qed
next
  case (Cons c cs)
  show ?case
  proof (cases "rmatch r (p, c # cs)")
    case Nil
    then show ?thesis using Cons.IH [of "Some c"] by (simp add: match_at_False)
  next
    case (Cons x xs)
    then have "x \<in> set (rmatch r (p, c # cs))" by simp
    then have "fst x \<noteq> None" by (rule assms)
    with Cons show ?thesis by (simp add: match_at_False)
  qed
qed

lemma group1_strip_company: "\<exists>company. group1_strip (re_search company_re s) = Inr company"
proof -
  have "re_search company_re s \<noteq> Some None"
    unfolding re_search_def company_re_def
    by (rule search_from_group) (rule rmatch_Seq_Grp_group)
  then show ?thesis
    by (cases "re_search company_re s") (auto simp: group1_strip_def split: option.splits)
qed

lemma group1_strip_title:
  "group1_strip (re_search title_re s) = Inr (case title_scan s of Some g \<Rightarrow> strip g | None \<Rightarrow> [])"
  by (simp add: re_search_def search_from_title_re group1_strip_def split: option.splits)

text \<open>The loop over the lines and the test on the whole text before it.\<close>

lemma career_loop_find:
  "career_loop lines job_title =
     (case find your_career lines of Some line \<Rightarrow> strip line | None \<Rightarrow> job_title)"
  by (induction lines) simp_all

lemma sublist_after_break: "sublist xs (after_break s) \<Longrightarrow> sublist xs s"
proof -
  assume a: "sublist xs (after_break s)"
  have "suffix (after_break s) s"
    by (auto simp: after_break_def suffix_def split: list.splits)
  then have "sublist (after_break s) s" by (rule suffix_imp_sublist)
  with a show ?thesis by (rule sublist_order.order_trans)
qed

lemma splitlines_sublist: "line \<in> set (splitlines s) \<Longrightarrow> sublist line s"
proof (induction s rule: splitlines.induct)
  case (1 s)
  let ?nb = "\<lambda>c. \<not> islinebreak c"
  show ?case
  proof (cases "s = []")
    case True
    with "1.prems" show ?thesis by simp
  next
    case False
    with "1.prems" consider "line = takeWhile ?nb s"
      | "line \<in> set (splitlines (after_break (dropWhile ?nb s)))"
      by (auto simp: splitlines_nonempty)
    then show ?thesis
    proof cases
      case 1
      have "prefix (takeWhile ?nb s) s"
        by (metis prefixI takeWhile_dropWhile_id)
      with 1 show ?thesis by (simp add: prefix_imp_sublist)
    next
      case 2
      then have "sublist line (after_break (dropWhile ?nb s))"
        using "1.IH" [OF False] by simp
      then have "sublist line (dropWhile ?nb s)"
        by (rule sublist_after_break)
      moreover have "sublist (dropWhile ?nb s) s"
        by (metis suffixI suffix_imp_sublist takeWhile_dropWhile_id)
      ultimately show ?thesis by (rule sublist_order.order_trans)
    qed
  qed
qed

lemma sublist_mapI: "sublist xs ys \<Longrightarrow> sublist (map f xs) (map f ys)"
  by (metis sublist_def map_append)

lemma your_career_iff:
  "your_career s \<longleftrightarrow> sublist ''your'' (lower s) \<and> sublist ''career'' (lower s)"
  by (simp add: your_career_def contains_iff_sublist)

lemma your_career_line:
  assumes "line \<in> set (splitlines s)" and "your_career line"
  shows "your_career s"
proof -
  have "sublist (lower line) (lower s)"
    unfolding lower_def using assms(1) by (intro sublist_mapI splitlines_sublist)
  with assms(2) show ?thesis
    unfolding your_career_iff by (meson sublist_order.order_trans)
qed

lemma find_your_career_None:
  "\<not> your_career s \<Longrightarrow> find your_career (splitlines s) = None"
  by (auto simp: find_None_iff dest: your_career_line)

lemma group_after_ws_main:
  "dropWhile isspace s \<noteq> [] \<Longrightarrow> group_after_ws s = Some (rest_of_line (dropWhile isspace s))"
  by (induction s) (auto split: option.splits)

text \<open>
  Claim C3, as the code has it. \<open>extract_job_title_and_company\<close> never raises. Its title
  is, if some line (as \<open>splitlines\<close> cuts them) contains both \<open>your\<close> and \<open>career\<close> in any case,
  the first such line, trimmed. Otherwise it is the trimmed group of the first match of the
  pattern, which is what \<open>title_scan\<close> finds: the keyword may stand anywhere, the \<open>:\<close> or
  \<open>-\<close> after it is optional, and the whitespace skipped before the group may hold line
  breaks, so the group is the rest of the line on which the next character that is not
  whitespace stands, the keyword's line or a later one. Without a match the title is empty.
\<close>

theorem title_first_match_or_career_line:
  "(\<exists>company. extract_job_title_and_company job_desc =
      Inr (case find your_career (splitlines job_desc) of
             Some line \<Rightarrow> strip line
           | None \<Rightarrow> (case title_scan job_desc of Some g \<Rightarrow> strip g | None \<Rightarrow> []),
           company))
   \<and> (\<forall>line. your_career line \<longleftrightarrow> sublist ''your'' (lower line) \<and> sublist ''career'' (lower line))
   \<and> (\<forall>s. dropWhile isspace s \<noteq> []
        \<longrightarrow> group_after_ws s = Some (takeWhile (\<lambda>c. c \<noteq> CHR 0x0A) (dropWhile isspace s)))"
proof (intro conjI allI impI)
  let ?t = "case title_scan job_desc of Some g \<Rightarrow> strip g | None \<Rightarrow> []"
  obtain company where c: "group1_strip (re_search company_re job_desc) = Inr company"
    using group1_strip_company by blast
  have "(if your_career job_desc then career_loop (splitlines job_desc) ?t else ?t)
      = (case find your_career (splitlines job_desc) of Some line \<Rightarrow> strip line | None \<Rightarrow> ?t)"
    by (simp add: career_loop_find find_your_career_None)
  then have "extract_job_title_and_company job_desc =
      Inr (case find your_career (splitlines job_desc) of Some line \<Rightarrow> strip line | None \<Rightarrow> ?t,
           if company = [] \<and> contains (lower job_desc) ''moneris'' then ''Moneris'' else company)"
    by (simp add: extract_job_title_and_company_def group1_strip_title c Let_def)
  then show "\<exists>company. extract_job_title_and_company job_desc =
      Inr (case find your_career (splitlines job_desc) of Some line \<Rightarrow> strip line | None \<Rightarrow> ?t,
           company)"
    by blast
  show "your_career line \<longleftrightarrow> sublist ''your'' (lower line) \<and> sublist ''career'' (lower line)"
    for line
    by (rule your_career_iff)
  show "group_after_ws s = Some (takeWhile (\<lambda>c. c \<noteq> CHR 0x0A) (dropWhile isspace s))"
    if "dropWhile isspace s \<noteq> []" for s
    using that by (simp add: group_after_ws_main rest_of_line_def)
qed


theorem title_first_match_or_career_line_witness:
  "title_scan (''Job Title: Dev'' @ [CHR 0x0A] @ ''more'') = Some ''Dev''
   \<and> find your_career (splitlines (''Job Title: Dev'' @ [CHR 0x0A] @ ''more'')) = None
   \<and> (\<exists>company. extract_job_title_and_company (''Job Title: Dev'' @ [CHR 0x0A] @ ''more'')
         = Inr (''Dev'', company))
   \<and> find your_career (splitlines (''Role: x'' @ [CHR 0x0A] @ '' Your career ''))
       = Some '' Your career ''
   \<and> (\<exists>company. extract_job_title_and_company (''Role: x'' @ [CHR 0x0A] @ '' Your career '')
         = Inr (''Your career'', company))
   \<and> dropWhile isspace ('' '' @ [CHR 0x0A] @ '' Dev'') \<noteq> []
   \<and> group_after_ws ('' '' @ [CHR 0x0A] @ '' Dev'') = Some ''Dev''"
proof -
  let ?a = "''Job Title: Dev'' @ [CHR 0x0A] @ ''more''"
  let ?b = "''Role: x'' @ [CHR 0x0A] @ '' Your career ''"
  let ?c = "'' '' @ [CHR 0x0A] @ '' Dev''"
  have a1: "title_scan ?a = Some ''Dev''"
    by (simp add: title_group_at_def group_at_def group_after_keyword_def rest_of_line_def
        char_simps)
  have a2: "find your_career (splitlines ?a) = None"
    by (simp add: your_career_def str_simps char_simps)
  have a3: "strip ''Dev'' = ''Dev''"
    by (simp add: str_simps char_simps)
  have "\<exists>company. extract_job_title_and_company ?a =
      Inr (case find your_career (splitlines ?a) of
             Some line \<Rightarrow> strip line
           | None \<Rightarrow> (case title_scan ?a of Some g \<Rightarrow> strip g | None \<Rightarrow> []),
           company)"
    using title_first_match_or_career_line [of ?a] by blast
  then have a: "\<exists>company. extract_job_title_and_company ?a = Inr (''Dev'', company)"
    unfolding a1 a2 by (simp add: a3)
  have b1: "find your_career (splitlines ?b) = Some '' Your career ''"
    by (simp add: your_career_def str_simps char_simps)
  have b2: "strip '' Your career '' = ''Your career''"
    by (simp add: str_simps char_simps)
  have "\<exists>company. extract_job_title_and_company ?b =
      Inr (case find your_career (splitlines ?b) of
             Some line \<Rightarrow> strip line
           | None \<Rightarrow> (case title_scan ?b of Some g \<Rightarrow> strip g | None \<Rightarrow> []),
           company)"
    using title_first_match_or_career_line [of ?b] by blast
  then have b: "\<exists>company. extract_job_title_and_company ?b = Inr (''Your career'', company)"
    unfolding b1 by (simp add: b2)
  have c1: "dropWhile isspace ?c \<noteq> []"
    by (simp add: char_simps)
  then have "group_after_ws ?c = Some (takeWhile (\<lambda>c. c \<noteq> CHR 0x0A) (dropWhile isspace ?c))"
    using title_first_match_or_career_line [of "[]"] by blast
  then have c: "group_after_ws ?c = Some ''Dev''"
    by (simp add: char_simps)
  show ?thesis
    using a1 a2 a b1 b c1 c by blast
qed

theorem title_next_line_counterexample:
  "splitlines (''Title:'' @ [CHR 0x0A] @ ''Engineer'') = [''Title:'', ''Engineer'']
   \<and> extract_job_title_and_company (''Title:'' @ [CHR 0x0A] @ ''Engineer'')
       = Inr (''Engineer'', [])"
  by (simp add: extract_job_title_and_company_def title_re_def company_re_def group1_strip_def
      your_career_def str_simps re_simps char_simps)

text \<open>
  Claim C2 at the text \<open>Look at the stars\<close>. No capitalised word follows \<open>at \<close>, and the text
  has no \<open>moneris\<close>, so the claim gives the empty company. The pattern is compiled with
  \<open>(?i)\<close>, under which \<open>[A-Z]\<close> matches a lower-case letter too: the company is \<open>the stars\<close>.
\<close>

theorem company_after_at_ignores_case:
  "extract_job_title_and_company ''Look at the stars'' = Inr ([], ''the stars'')"
  by (simp add: extract_job_title_and_company_def title_re_def company_re_def group1_strip_def
      your_career_def str_simps re_simps char_simps)

section \<open>\<open>compute_ats_score\<close>\<close>

text \<open>
  \<open>compute_ats_score\<close> calls scikit-learn: \<open>TfidfVectorizer()\<close> with its default parameters
  and \<open>cosine_similarity\<close>. The library is not part of the repository; the definitions
  below are modelled from the library's documented behaviour on two documents (lower case,
  tokens of two or more word characters, a sorted vocabulary and \<open>ValueError\<close> when it is
  empty, counts weighted by the smoothed inverse document frequency, rows of length one,
  the product of the two normalised rows).
  The numbers are IEEE doubles in the program; the model leaves the arithmetic open: it
  takes the operations on the numbers as a record \<open>A\<close>, so that what is proved holds for
  every arithmetic, the doubles included, that has the properties a theorem names.
\<close>

record 'f arith =
  fzero :: 'f
  fhundred :: 'f
  of_count :: "nat \<Rightarrow> 'f"
  fadd :: "'f \<Rightarrow> 'f \<Rightarrow> 'f"
  fmul :: "'f \<Rightarrow> 'f \<Rightarrow> 'f"
  fdiv :: "'f \<Rightarrow> 'f \<Rightarrow> 'f"
  fsqrt :: "'f \<Rightarrow> 'f"
  fln :: "'f \<Rightarrow> 'f"
  fround2 :: "'f \<Rightarrow> 'f"

text \<open>The exact arithmetic of the real numbers; \<open>round(x, 2)\<close> rounds a tie to the even
  neighbour.\<close>

definition round_half_even :: "real \<Rightarrow> int" where
  "round_half_even x =
     (let f = \<lfloor>x\<rfloor>; d = x - of_int f
      in if d < 1 / 2 then f else if 1 / 2 < d then f + 1 else if even f then f else f + 1)"

definition real_arith :: "real arith" where
  "real_arith = \<lparr>fzero = 0, fhundred = 100, of_count = real, fadd = (+), fmul = (*),
     fdiv = (/), fsqrt = sqrt, fln = ln,
     fround2 = (\<lambda>x. of_int (round_half_even (x * 100)) / 100)\<rparr>"

text \<open>The analyzer of the vectorizer: the document in lower case, cut into the matches of
  the token pattern \<open>(?u)\b\w\w+\b\<close>.\<close>

definition token_re :: regex where
  "token_re = Seq Bnd (Seq (Cls isword) (Seq (Plus (Cls isword)) Bnd))"

definition tokens :: "string \<Rightarrow> string list" where
  "tokens doc = re_findall token_re (lower doc)"

text \<open>The vocabulary: the terms of all documents, sorted.\<close>

definition vocabulary :: "string list \<Rightarrow> string list" where
  "vocabulary docs = sorted_list_of_set (set (concat (map tokens docs)))"

text \<open>The smoothed inverse document frequency \<open>ln((1 + n) / (1 + df)) + 1\<close>.\<close>

definition doc_freq :: "string list \<Rightarrow> string \<Rightarrow> nat" where
  "doc_freq docs t = length (filter (\<lambda>d. t \<in> set (tokens d)) docs)"

definition idf :: "'f arith \<Rightarrow> string list \<Rightarrow> string \<Rightarrow> 'f" where
  "idf A docs t =
     fadd A (fln A (fdiv A (of_count A (length docs + 1)) (of_count A (doc_freq docs t + 1))))
       (of_count A 1)"

text \<open>A row of the sparse matrix: the terms of the document, in the order of the
  vocabulary, each with its value. Before the normalisation a value is the count of the
  term in the document times its inverse document frequency.\<close>

type_synonym 'f row = "(string \<times> 'f) list"

definition weighted :: "'f arith \<Rightarrow> string list \<Rightarrow> string \<Rightarrow> 'f row" where
  "weighted A docs d =
     map (\<lambda>t. (t, fmul A (of_count A (count_list (tokens d) t)) (idf A docs t)))
       (filter (\<lambda>t. t \<in> set (tokens d)) (vocabulary docs))"

text \<open>The normalisation to length one: a row whose sum of squares is zero is left as it is.\<close>

definition sum_squares :: "'f arith \<Rightarrow> 'f row \<Rightarrow> 'f" where
  "sum_squares A r = foldl (\<lambda>s x. fadd A s (fmul A (snd x) (snd x))) (fzero A) r"

definition normalize :: "'f arith \<Rightarrow> 'f row \<Rightarrow> 'f row" where
  "normalize A r =
     (if sum_squares A r = fzero A then r
      else map (\<lambda>x. (fst x, fdiv A (snd x) (fsqrt A (sum_squares A r)))) r)"

text \<open>\<open>fit_transform\<close>: an empty vocabulary raises \<open>ValueError\<close>.\<close>

definition fit_transform :: "'f arith \<Rightarrow> string list \<Rightarrow> py_error + 'f row list" where
  "fit_transform A docs =
     (if vocabulary docs = [] then Inl ValueError
      else Inr (map (\<lambda>d. normalize A (weighted A docs d)) docs))"

text \<open>The product of a row with another: the sum, over the entries of the first whose
  term the second has too, of the products of the two values.\<close>

definition dot :: "'f arith \<Rightarrow> 'f row \<Rightarrow> 'f row \<Rightarrow> 'f" where
  "dot A a b =
     foldl (\<lambda>s x. case map_of b (fst x) of None \<Rightarrow> s | Some w \<Rightarrow> fadd A s (fmul A (snd x) w))
       (fzero A) a"

text \<open>\<open>cosine_similarity\<close> normalises both rows and multiplies them.\<close>

definition cosine_similarity :: "'f arith \<Rightarrow> 'f row \<Rightarrow> 'f row \<Rightarrow> 'f" where
  "cosine_similarity A a b = dot A (normalize A a) (normalize A b)"

definition compute_ats_score :: "'f arith \<Rightarrow> string \<Rightarrow> string \<Rightarrow> py_error + 'f" where
  "compute_ats_score A resume job_desc =
     (case fit_transform A [resume, job_desc] of
        Inl e \<Rightarrow> Inl e
      | Inr tfidf \<Rightarrow>
          Inr (fround2 A (fmul A (cosine_similarity A (tfidf ! 0) (tfidf ! 1)) (fhundred A))))"

lemma tokens_Nil: "tokens [] = []"
  by (simp add: tokens_def lower_def token_re_def re_findall_def findall_from.simps match_at_def
      at_boundary_def word_before_def word_after_def)

lemma vocabulary_Nil_iff: "vocabulary docs = [] \<longleftrightarrow> (\<forall>d \<in> set docs. tokens d = [])"
  by (auto simp: vocabulary_def sorted_list_of_set_eq_Nil_iff)

lemma vocabulary_swap: "vocabulary [x, y] = vocabulary [y, x]"
  by (simp add: vocabulary_def Un_commute)

lemma doc_freq_swap: "doc_freq [x, y] t = doc_freq [y, x] t"
  by (simp add: doc_freq_def)

lemma weighted_swap: "weighted A [x, y] d = weighted A [y, x] d"
  by (simp add: weighted_def idf_def doc_freq_swap [of x y] vocabulary_swap [of x y])

text \<open>The rows keep their terms: a row is a list of terms, each with the value that a
  function gives it, and normalising changes the function only.\<close>

definition row_of :: "(string \<Rightarrow> 'f) \<Rightarrow> string list \<Rightarrow> 'f row" where
  "row_of f ts = map (\<lambda>t. (t, f t)) ts"

lemma weighted_row_of:
  "weighted A docs d =
     row_of (\<lambda>t. fmul A (of_count A (count_list (tokens d) t)) (idf A docs t))
       (filter (\<lambda>t. t \<in> set (tokens d)) (vocabulary docs))"
  by (simp add: weighted_def row_of_def)

lemma normalize_row_of: "\<exists>g. normalize A (row_of f ts) = row_of g ts"
proof (cases "sum_squares A (row_of f ts) = fzero A")
  case True
  then have "normalize A (row_of f ts) = row_of f ts"
    by (simp add: normalize_def)
  then show ?thesis by blast
next
  case False
  then have "normalize A (row_of f ts)
      = row_of (\<lambda>t. fdiv A (f t) (fsqrt A (sum_squares A (row_of f ts)))) ts"
    by (simp add: normalize_def row_of_def)
  then show ?thesis by blast
qed

lemma map_of_row_of: "map_of (row_of f ts) t = (if t \<in> set ts then Some (f t) else None)"
  by (induction ts) (simp_all add: row_of_def)

lemma dot_row_of_aux:
  "foldl (\<lambda>s x. case map_of (row_of fb (filter Pb V)) (fst x) of
                   None \<Rightarrow> s | Some w \<Rightarrow> fadd A s (fmul A (snd x) w))
        s0 (row_of fa (filter Pa ts))
   = foldl (\<lambda>s t. fadd A s (fmul A (fa t) (fb t))) s0
        (filter (\<lambda>t. Pa t \<and> (t \<in> set V \<and> Pb t)) ts)"
  by (induction ts arbitrary: s0) (simp_all add: row_of_def map_of_row_of [unfolded row_of_def])

lemma dot_row_of:
  "dot A (row_of fa (filter Pa V)) (row_of fb (filter Pb V))
   = foldl (\<lambda>s t. fadd A s (fmul A (fa t) (fb t))) (fzero A) (filter (\<lambda>t. Pa t \<and> Pb t) V)"
proof -
  have "filter (\<lambda>t. Pa t \<and> (t \<in> set V \<and> Pb t)) V = filter (\<lambda>t. Pa t \<and> Pb t) V"
    by (rule filter_cong) auto
  then show ?thesis
    by (simp add: dot_def dot_row_of_aux)
qed

lemma dot_row_of_commute:
  assumes "\<forall>a b. fmul A a b = fmul A b a"
  shows "dot A (row_of fa (filter Pa V)) (row_of fb (filter Pb V))
       = dot A (row_of fb (filter Pb V)) (row_of fa (filter Pa V))"
proof -
  have "(\<lambda>s t. fadd A s (fmul A (fa t) (fb t))) = (\<lambda>s t. fadd A s (fmul A (fb t) (fa t)))"
    using assms by simp
  moreover have "filter (\<lambda>t. Pa t \<and> Pb t) V = filter (\<lambda>t. Pb t \<and> Pa t) V"
    by (rule filter_cong) auto
  ultimately show ?thesis
    by (simp only: dot_row_of)
qed

lemma dot_row_of_disjoint:
  assumes "\<forall>t \<in> set V. \<not> (Pa t \<and> Pb t)"
  shows "dot A (row_of fa (filter Pa V)) (row_of fb (filter Pb V)) = fzero A"
proof -
  have "filter (\<lambda>t. Pa t \<and> Pb t) V = []"
    using assms by (simp add: filter_empty_conv)
  then show ?thesis
    by (simp add: dot_row_of)
qed

text \<open>The two rows that \<open>cosine_similarity\<close> multiplies.\<close>

lemma twice_normalized:
  "\<exists>g. normalize A (normalize A (weighted A docs d))
     = row_of g (filter (\<lambda>t. t \<in> set (tokens d)) (vocabulary docs))"
proof -
  obtain g where "normalize A (weighted A docs d)
      = row_of g (filter (\<lambda>t. t \<in> set (tokens d)) (vocabulary docs))"
    using normalize_row_of unfolding weighted_row_of by blast
  then show ?thesis
    using normalize_row_of [of A g] by simp
qed

lemma compute_ats_score_unfold:
  "compute_ats_score A x y =
     (if tokens x = [] \<and> tokens y = [] then Inl ValueError
      else Inr (fround2 A (fmul A
        (dot A (normalize A (normalize A (weighted A [x, y] x)))
               (normalize A (normalize A (weighted A [x, y] y))))
        (fhundred A))))"
  by (simp add: compute_ats_score_def fit_transform_def cosine_similarity_def vocabulary_Nil_iff)

text \<open>
  Claim C8. In every arithmetic whose multiplication is commutative (that of the doubles
  is), \<open>compute_ats_score\<close> gives the same result for its two arguments in either order: the
  same score, or \<open>ValueError\<close> for both.
\<close>

theorem compute_ats_score_symmetric:
  assumes "\<forall>a b. fmul A a b = fmul A b a"
  shows "compute_ats_score A x y = compute_ats_score A y x"
proof -
  obtain gx where gx: "normalize A (normalize A (weighted A [x, y] x))
      = row_of gx (filter (\<lambda>t. t \<in> set (tokens x)) (vocabulary [x, y]))"
    using twice_normalized by blast
  obtain gy where gy: "normalize A (normalize A (weighted A [x, y] y))
      = row_of gy (filter (\<lambda>t. t \<in> set (tokens y)) (vocabulary [x, y]))"
    using twice_normalized by blast
  have "dot A (normalize A (normalize A (weighted A [x, y] x)))
              (normalize A (normalize A (weighted A [x, y] y)))
      = dot A (normalize A (normalize A (weighted A [x, y] y)))
              (normalize A (normalize A (weighted A [x, y] x)))"
    unfolding gx gy using assms by (rule dot_row_of_commute)
  then show ?thesis
    unfolding compute_ats_score_unfold weighted_swap [of A y x] by auto
qed

text \<open>
  Claim C1, as the code has it. If the two texts share no token (an empty text has none),
  \<open>compute_ats_score\<close> returns zero provided one of the texts has a token; if neither has
  one, the vocabulary is empty and \<open>fit_transform\<close> raises \<open>ValueError\<close>. Of the arithmetic
  this needs that zero times one hundred is zero and that zero rounds to zero.
\<close>

theorem compute_ats_score_disjoint:
  assumes "set (tokens resume) \<inter> set (tokens job_desc) = {}"
    and "fmul A (fzero A) (fhundred A) = fzero A"
    and "fround2 A (fzero A) = fzero A"
  shows "compute_ats_score A resume job_desc =
      (if tokens resume = [] \<and> tokens job_desc = [] then Inl ValueError else Inr (fzero A))
     \<and> tokens [] = []"
proof -
  let ?V = "vocabulary [resume, job_desc]"
  obtain gx where gx: "normalize A (normalize A (weighted A [resume, job_desc] resume))
      = row_of gx (filter (\<lambda>t. t \<in> set (tokens resume)) ?V)"
    using twice_normalized by blast
  obtain gy where gy: "normalize A (normalize A (weighted A [resume, job_desc] job_desc))
      = row_of gy (filter (\<lambda>t. t \<in> set (tokens job_desc)) ?V)"
    using twice_normalized by blast
  have "\<forall>t \<in> set ?V. \<not> (t \<in> set (tokens resume) \<and> t \<in> set (tokens job_desc))"
    using assms(1) by blast
  then have "dot A (normalize A (normalize A (weighted A [resume, job_desc] resume)))
      (normalize A (normalize A (weighted A [resume, job_desc] job_desc))) = fzero A"
    unfolding gx gy by (rule dot_row_of_disjoint)
  then show ?thesis
    using assms(2,3) by (simp add: compute_ats_score_unfold tokens_Nil)
qed


lemmas tokens_simps = tokens_def lower_def token_re_def

lemma tokens_examples:
  "tokens ''ab cd'' = [''ab'', ''cd'']" "tokens ''cd ef'' = [''cd'', ''ef'']"
  "tokens ''ab'' = [''ab'']" "tokens ''a'' = []" "tokens ''b'' = []"
  by (simp_all add: tokens_simps re_simps char_simps)

theorem compute_ats_score_symmetric_witness:
  "(\<forall>a b. fmul real_arith a b = fmul real_arith b a)
   \<and> compute_ats_score real_arith ''ab cd'' ''cd ef''
       = compute_ats_score real_arith ''cd ef'' ''ab cd''
   \<and> compute_ats_score real_arith ''ab'' ''ab'' = Inr 100"
proof -
  have c: "\<forall>a b. fmul real_arith a b = fmul real_arith b a"
    by (simp add: real_arith_def)
  have "compute_ats_score real_arith ''ab'' ''ab'' = Inr 100"
    by (simp add: compute_ats_score_def fit_transform_def cosine_similarity_def vocabulary_def
        weighted_def idf_def doc_freq_def normalize_def sum_squares_def dot_def tokens_examples
        real_arith_def round_half_even_def)
  with c compute_ats_score_symmetric [OF c, of "''ab cd''" "''cd ef''"] show ?thesis
    by blast
qed

theorem compute_ats_score_disjoint_witness:
  "tokens [] = [] \<and> tokens ''ab cd'' = [''ab'', ''cd'']
   \<and> fmul real_arith (fzero real_arith) (fhundred real_arith) = fzero real_arith
   \<and> fround2 real_arith (fzero real_arith) = fzero real_arith
   \<and> compute_ats_score real_arith [] ''ab cd'' = Inr 0
   \<and> compute_ats_score real_arith ''ab cd'' ''a'' = Inr 0"
proof -
  have m: "fmul real_arith (fzero real_arith) (fhundred real_arith) = fzero real_arith"
    by (simp add: real_arith_def)
  have r: "fround2 real_arith (fzero real_arith) = fzero real_arith"
    by (simp add: real_arith_def round_half_even_def)
  have z: "fzero real_arith = 0"
    by (simp add: real_arith_def)
  have d1: "set (tokens []) \<inter> set (tokens ''ab cd'') = {}"
    by (simp add: tokens_Nil)
  have d2: "set (tokens ''ab cd'') \<inter> set (tokens ''a'') = {}"
    by (simp add: tokens_examples)
  have 1: "compute_ats_score real_arith [] ''ab cd'' = Inr 0"
    using compute_ats_score_disjoint [OF d1 m r] by (simp add: tokens_Nil tokens_examples z)
  have 2: "compute_ats_score real_arith ''ab cd'' ''a'' = Inr 0"
    using compute_ats_score_disjoint [OF d2 m r] by (simp add: tokens_examples z)
  show ?thesis
    using 1 2 m r by (simp add: tokens_Nil tokens_examples)
qed

theorem compute_ats_score_empty_counterexample:
  "compute_ats_score real_arith [] [] = Inl ValueError
   \<and> compute_ats_score real_arith ''a'' ''b'' = Inl ValueError"
  by (simp add: compute_ats_score_def fit_transform_def vocabulary_def tokens_Nil tokens_examples)

section \<open>\<open>highlight_keywords\<close> and the words of the text\<close>

text \<open>
  What \<open>highlight_keywords\<close> does to a text, said in terms of the words of the text. A word
  of a text is a maximal run of word characters. \<open>map_words f\<close> reads the text from left to
  right, puts \<open>f w\<close> for every word \<open>w\<close> and copies every other character. \<open>same_word\<close> is
  equality of two texts without regard to case. \<open>wrap_words kw\<close> puts every word of the text
  that is the keyword, in any case, between \<open>**\<close>.
\<close>

function map_words :: "(string \<Rightarrow> string) \<Rightarrow> string \<Rightarrow> string" where
  "map_words f [] = []"
| "map_words f (c # cs) =
     (if isword c then f (c # takeWhile isword cs) @ map_words f (dropWhile isword cs)
      else c # map_words f cs)"
  by pat_completeness auto

termination map_words
  by (relation "measure (\<lambda>(f, s). length s)") (auto simp: less_Suc_eq_le length_dropWhile_le)




text \<open>The whole run: every word of the text is wrapped once for every keyword of the set
  that it is, in any case.\<close>

definition stars :: "nat \<Rightarrow> string" where
  "stars n = replicate (2 * n) (CHR ''*'')"



subsection \<open>Words and case\<close>









subsection \<open>The pattern of a word keyword matches the words that are the keyword\<close>





lemma map_words_word:
  "isword c \<Longrightarrow>
   map_words f (c # cs) = f (takeWhile isword (c # cs)) @ map_words f (dropWhile isword (c # cs))"
  by simp



subsection \<open>A pass leaves the words of the text in place\<close>






lemma not_isword_star: "\<not> isword (CHR ''*'')"
  by (simp add: char_simps)

lemma stars_nonword: "list_all (\<lambda>c. \<not> isword c) (stars n)"
  by (simp add: stars_def list_all_iff not_isword_star)





subsection \<open>The order of the passes\<close>

lemma distinct_sorted_by_len_desc [simp]: "distinct (sorted_by_len_desc ks) = distinct ks"
  by (simp add: sorted_by_len_desc_def)


















end
